theory Spec2Isabelle
  imports Complex_Main "HOL-Library.Sublist" "HOL-Library.Word"
begin

section \<open>The PCM audio queue of DingoFlowApp\<close>

text \<open>
  JavaScript numbers that hold byte counts and offsets are integers here (\<open>int\<close>);
  numbers that hold milliseconds or averages are \<open>real\<close>. A \<open>Buffer\<close> is a list of
  bytes. \<open>Date.now()\<close> is an argument of every operation that reads the clock.
\<close>

type_synonym byte = "8 word"

record QueuedAudioChunk =
  data :: "byte list"
  offset :: int
  enqueuedAtMs :: real

record PendingAudioSlice =
  slice_data :: "byte list"
  oldestEnqueuedAtMs :: real

record AudioQueue =
  sessionAudioChunks :: "byte list list"
  pendingAudioQueue :: "QueuedAudioChunk list"
  pendingAudioBytes :: int

text \<open>\<open>startRecording\<close> and the \<open>finally\<close> block of \<open>stopAndProcess\<close> reset the queue fields.\<close>

definition emptyQueue :: AudioQueue where
  "emptyQueue = \<lparr>sessionAudioChunks = [], pendingAudioQueue = [], pendingAudioBytes = 0\<rparr>"

text \<open>
  \<open>enqueueAudioChunk\<close>: the chunk is copied into the session buffer and pushed on the
  queue with offset 0. The call of \<open>ensureAsrLoop\<close> that ends it only schedules takes.
\<close>

definition enqueueAudioChunk :: "real \<Rightarrow> byte list \<Rightarrow> AudioQueue \<Rightarrow> AudioQueue" where
  "enqueueAudioChunk now chunk q =
     q\<lparr>sessionAudioChunks := sessionAudioChunks q @ [chunk],
       pendingAudioQueue := pendingAudioQueue q @
          [\<lparr>data = chunk, offset = 0, enqueuedAtMs = now\<rparr>],
       pendingAudioBytes := pendingAudioBytes q + int (length chunk)\<rparr>"

text \<open>
  The \<open>while (writeOffset < byteCount)\<close> loop of \<open>readPendingAudioSlice\<close>. The output
  buffer is the list of bytes written so far (\<open>output.subarray(0, writeOffset)\<close>);
  the result is (output, oldestEnqueuedAtMs, queue, pendingAudioBytes).
\<close>

function copyFromQueue ::
  "int \<Rightarrow> int \<Rightarrow> byte list \<Rightarrow> real \<Rightarrow> QueuedAudioChunk list \<Rightarrow> int
     \<Rightarrow> byte list \<times> real \<times> QueuedAudioChunk list \<times> int" where
  "copyFromQueue byteCount writeOffset output oldest q pending =
     (if writeOffset < byteCount then
        (case q of
           [] \<Rightarrow> (output, oldest, q, pending)
         | head # rest \<Rightarrow>
             (let oldest' = min oldest (enqueuedAtMs head);
                  available = int (length (data head)) - offset head;
                  toCopy = min available (byteCount - writeOffset);
                  output' = output @ take (nat toCopy) (drop (nat (offset head)) (data head));
                  head' = head\<lparr>offset := offset head + toCopy\<rparr>;
                  q' = (if offset head' \<ge> int (length (data head')) then rest else head' # rest)
              in copyFromQueue byteCount (writeOffset + toCopy) output' oldest' q' (pending - toCopy)))
      else (output, oldest, q, pending))"
  by pat_completeness auto
termination
  by (relation "measures [\<lambda>(b, w, out, old, q, p). length q, \<lambda>(b, w, out, old, q, p). nat (b - w)]")
     (auto simp: Let_def min_def split: if_splits)

declare copyFromQueue.simps [simp del]

definition readPendingAudioSlice ::
  "real \<Rightarrow> int \<Rightarrow> AudioQueue \<Rightarrow> PendingAudioSlice option \<times> AudioQueue" where
  "readPendingAudioSlice now byteCount q =
     (if byteCount \<le> 0 \<or> byteCount > pendingAudioBytes q then (None, q)
      else (case copyFromQueue byteCount 0 [] now (pendingAudioQueue q) (pendingAudioBytes q) of
              (output, oldest, queue', pending') \<Rightarrow>
                (Some \<lparr>slice_data = output, oldestEnqueuedAtMs = oldest\<rparr>,
                 q\<lparr>pendingAudioQueue := queue', pendingAudioBytes := pending'\<rparr>)))"

text \<open>A sequence of queue operations, with the slices the takes returned, in order.\<close>

datatype queue_op = Enqueue real "byte list" | Take real int

fun run_ops :: "queue_op list \<Rightarrow> AudioQueue \<Rightarrow> byte list list \<Rightarrow> AudioQueue \<times> byte list list" where
  "run_ops [] q taken = (q, taken)"
| "run_ops (Enqueue now chunk # ops) q taken = run_ops ops (enqueueAudioChunk now chunk q) taken"
| "run_ops (Take now n # ops) q taken =
     (case readPendingAudioSlice now n q of
        (None, q') \<Rightarrow> run_ops ops q' taken
      | (Some sl, q') \<Rightarrow> run_ops ops q' (taken @ [slice_data sl]))"

fun enqueued_bytes :: "queue_op list \<Rightarrow> byte list" where
  "enqueued_bytes [] = []"
| "enqueued_bytes (Enqueue now chunk # ops) = chunk @ enqueued_bytes ops"
| "enqueued_bytes (Take now n # ops) = enqueued_bytes ops"

section \<open>Strings\<close>

text \<open>
  A JavaScript string is a list of code units; the model covers the code units below 256
  (\<open>char\<close>), read as Latin-1. \<open>isWhiteSpace\<close> is the class \<open>\s\<close> of a regular
  expression, which is also what \<open>trim\<close> strips; \<open>toLowerCaseChar\<close> is
  \<open>toLowerCase\<close> on one code unit.
\<close>

definition isWhiteSpace :: "char \<Rightarrow> bool" where
  "isWhiteSpace c = (of_char c \<in> {9::nat, 10, 11, 12, 13, 32, 160})"

definition isHorizontalSpace :: "char \<Rightarrow> bool" where
  "isHorizontalSpace c = (c = CHR '' '' \<or> c = CHR 0x09)"

definition newline :: char where
  "newline = CHR 0x0A"

definition isUpperAscii :: "char \<Rightarrow> bool" where
  "isUpperAscii c = (65 \<le> (of_char c :: nat) \<and> (of_char c :: nat) \<le> 90)"

definition isLowerAscii :: "char \<Rightarrow> bool" where
  "isLowerAscii c = (97 \<le> (of_char c :: nat) \<and> (of_char c :: nat) \<le> 122)"

definition isDigit :: "char \<Rightarrow> bool" where
  "isDigit c = (48 \<le> (of_char c :: nat) \<and> (of_char c :: nat) \<le> 57)"

definition isAlphaNumeric :: "char \<Rightarrow> bool" where
  "isAlphaNumeric c = (isUpperAscii c \<or> isLowerAscii c \<or> isDigit c)"

text \<open>The class \<open>\w\<close>, which decides the word boundary \<open>\b\<close>.\<close>

definition isWordChar :: "char \<Rightarrow> bool" where
  "isWordChar c = (isAlphaNumeric c \<or> c = CHR ''_'')"

definition toLowerCaseChar :: "char \<Rightarrow> char" where
  "toLowerCaseChar c =
     (let n = (of_char c :: nat)
      in if (65 \<le> n \<and> n \<le> 90) \<or> (192 \<le> n \<and> n \<le> 222 \<and> n \<noteq> 215)
         then char_of (n + 32) else c)"

definition toLowerCase :: "string \<Rightarrow> string" where
  "toLowerCase s = map toLowerCaseChar s"

definition trimStart :: "string \<Rightarrow> string" where
  "trimStart s = dropWhile isWhiteSpace s"

definition trimEnd :: "string \<Rightarrow> string" where
  "trimEnd s = rev (dropWhile isWhiteSpace (rev s))"

definition trim :: "string \<Rightarrow> string" where
  "trim s = trimEnd (trimStart s)"

text \<open>\<open>/[\s\n]$/.test(s)\<close>\<close>

definition endsWithWhitespace :: "string \<Rightarrow> bool" where
  "endsWithWhitespace s = (case rev s of [] \<Rightarrow> False | c # _ \<Rightarrow> isWhiteSpace c)"

text \<open>
  \<open>s.split(/\s+/)\<close>, called as \<open>splitWhitespace [] s\<close>: the first argument is the
  token read so far. The empty string splits into one empty token.
\<close>

function splitWhitespace :: "string \<Rightarrow> string \<Rightarrow> string list" where
  "splitWhitespace cur [] = [cur]"
| "splitWhitespace cur (c # cs) =
     (if isWhiteSpace c then cur # splitWhitespace [] (dropWhile isWhiteSpace cs)
      else splitWhitespace (cur @ [c]) cs)"
  by pat_completeness auto
termination
  by (relation "measure (\<lambda>(cur, s). length s)") (auto simp: length_dropWhile_le less_Suc_eq_le)

text \<open>\<open>words.join(' ')\<close>\<close>

fun joinWords :: "string list \<Rightarrow> string" where
  "joinWords [] = []"
| "joinWords [w] = w"
| "joinWords (w # v # ws) = w @ CHR '' '' # joinWords (v # ws)"

section \<open>SpokenFormattingProcessor\<close>

record SpokenFormattingResult =
  result_text :: string
  appliedCommands :: nat

text \<open>
  Every pattern of \<open>RULES\<close> is \<open>/\bphrase\b/gi\<close> for a phrase of lower-case letters
  and spaces; a rule is the phrase with its replacement.
\<close>

definition RULES :: "(string \<times> string) list" where
  "RULES =
    [(''new paragraph'', [newline, newline]),
     (''new line'', [newline]),
     (''full stop'', ''.''),
     (''question mark'', ''?''),
     (''exclamation mark'', ''!''),
     (''open parenthesis'', ''(''),
     (''close parenthesis'', '')''),
     (''open bracket'', ''[''),
     (''close bracket'', '']''),
     (''open quote'', [CHR 0x22]),
     (''close quote'', [CHR 0x22]),
     (''semicolon'', '';''),
     (''colon'', '':''),
     (''comma'', '',''),
     (''period'', ''.'')]"

text \<open>
  \<open>String.prototype.replace\<close> with a global regular expression that never matches the
  empty string. The matcher \<open>m prev s\<close> tells whether the expression matches at the
  head of \<open>s\<close>, where \<open>prev\<close> is the code unit before it (\<open>None\<close> at the start of the
  input), and returns the length of the match with its replacement. The scan goes from
  left to right and resumes after each match; the result is the new string and the
  number of matches.
\<close>

fun replaceAll ::
  "(char option \<Rightarrow> string \<Rightarrow> (nat \<times> string) option) \<Rightarrow> nat \<Rightarrow> char option \<Rightarrow> string
     \<Rightarrow> string \<times> nat" where
  "replaceAll m skip prev [] = ([], 0)"
| "replaceAll m (Suc skip) prev (c # cs) = replaceAll m skip (Some c) cs"
| "replaceAll m 0 prev (c # cs) =
     (case m prev (c # cs) of
        Some (len, replacement) \<Rightarrow>
          (case replaceAll m (len - 1) (Some c) cs of (out, n) \<Rightarrow> (replacement @ out, n + 1))
      | None \<Rightarrow>
          (case replaceAll m 0 (Some c) cs of (out, n) \<Rightarrow> (c # out, n)))"

definition replace :: "(char option \<Rightarrow> string \<Rightarrow> (nat \<times> string) option) \<Rightarrow> string \<Rightarrow> string" where
  "replace m s = fst (replaceAll m 0 None s)"

text \<open>The length of the longest run of code units of a class at the head of a string.\<close>

definition runLength :: "(char \<Rightarrow> bool) \<Rightarrow> string \<Rightarrow> nat" where
  "runLength P s = length (takeWhile P s)"

text \<open>
  \<open>/\bphrase\b/gi\<close>: no word character before the phrase, the phrase itself ignoring
  case, no word character after it. Among the code units below 256, a lower-case letter of
  a phrase matches itself and its upper-case letter only, and the space matches itself.
\<close>

definition matchPhrase :: "string \<Rightarrow> string \<Rightarrow> char option \<Rightarrow> string \<Rightarrow> (nat \<times> string) option" where
  "matchPhrase phrase replacement prev s =
     (if phrase \<noteq> [] \<and>
         (case prev of None \<Rightarrow> True | Some p \<Rightarrow> \<not> isWordChar p) \<and>
         length phrase \<le> length s \<and> toLowerCase (take (length phrase) s) = phrase \<and>
         (case drop (length phrase) s of [] \<Rightarrow> True | d # _ \<Rightarrow> \<not> isWordChar d)
      then Some (length phrase, replacement) else None)"

text \<open>
  The loop of \<open>transform\<close> over \<open>RULES\<close>:
  \<open>output.replace(rule.pattern, () => { appliedCommands += 1; return rule.replacement; })\<close>.
\<close>

fun applyRules :: "(string \<times> string) list \<Rightarrow> string \<Rightarrow> nat \<Rightarrow> string \<times> nat" where
  "applyRules [] output applied = (output, applied)"
| "applyRules ((phrase, replacement) # rules) output applied =
     (case replaceAll (matchPhrase phrase replacement) 0 None output of
        (output', n) \<Rightarrow> applyRules rules output' (applied + n))"

text \<open>\<open>/^[ \t]+|[ \t]+$/g\<close>, replaced by the empty string.\<close>

definition matchEdgeSpaces :: "char option \<Rightarrow> string \<Rightarrow> (nat \<times> string) option" where
  "matchEdgeSpaces prev s =
     (let n = runLength isHorizontalSpace s
      in if 1 \<le> n \<and> (prev = None \<or> drop n s = []) then Some (n, []) else None)"

definition stripEdgeSpaces :: "string \<Rightarrow> string" where
  "stripEdgeSpaces v = replace matchEdgeSpaces v"

text \<open>\<open>/[ \t]{2,}/g\<close>, replaced by one space.\<close>

definition matchSpaceRun :: "char option \<Rightarrow> string \<Rightarrow> (nat \<times> string) option" where
  "matchSpaceRun prev s =
     (let n = runLength isHorizontalSpace s in if 2 \<le> n then Some (n, '' '') else None)"

text \<open>\<open>/[ \t]*\n[ \t]*/g\<close>, replaced by a newline.\<close>

definition matchNewlineWithSpaces :: "char option \<Rightarrow> string \<Rightarrow> (nat \<times> string) option" where
  "matchNewlineWithSpaces prev s =
     (let n = runLength isHorizontalSpace s
      in case drop n s of
           [] \<Rightarrow> None
         | d # ds \<Rightarrow> if d = newline
                     then Some (n + 1 + runLength isHorizontalSpace ds, [newline]) else None)"

text \<open>\<open>/[ ]+([,.;:!?)}\]])/g\<close>, replaced by \<open>$1\<close>.\<close>

definition isClosingPunctuation :: "char \<Rightarrow> bool" where
  "isClosingPunctuation c = (c \<in> set '',.;:!?)}]'')"

definition matchSpacesBeforePunctuation :: "char option \<Rightarrow> string \<Rightarrow> (nat \<times> string) option" where
  "matchSpacesBeforePunctuation prev s =
     (let n = runLength (\<lambda>c. c = CHR '' '') s
      in if 1 \<le> n then
           (case drop n s of
              [] \<Rightarrow> None
            | d # _ \<Rightarrow> if isClosingPunctuation d then Some (n + 1, [d]) else None)
         else None)"

text \<open>\<open>/([({\["])\s+/g\<close>, replaced by \<open>$1\<close>.\<close>

definition quote :: char where
  "quote = CHR 0x22"

definition isOpeningSymbol :: "char \<Rightarrow> bool" where
  "isOpeningSymbol c = (c \<in> set ''({['' \<or> c = quote)"

definition matchSpacesAfterOpening :: "char option \<Rightarrow> string \<Rightarrow> (nat \<times> string) option" where
  "matchSpacesAfterOpening prev s =
     (case s of
        [] \<Rightarrow> None
      | c # cs \<Rightarrow>
          (let n = runLength isWhiteSpace cs
           in if isOpeningSymbol c \<and> 1 \<le> n then Some (1 + n, [c]) else None))"

text \<open>\<open>/"\s+([A-Za-z0-9])/g\<close>, replaced by \<open>"$1\<close>.\<close>

definition matchQuoteThenWord :: "char option \<Rightarrow> string \<Rightarrow> (nat \<times> string) option" where
  "matchQuoteThenWord prev s =
     (case s of
        [] \<Rightarrow> None
      | c # cs \<Rightarrow>
          (let n = runLength isWhiteSpace cs
           in if c = quote \<and> 1 \<le> n then
                (case drop n cs of
                   [] \<Rightarrow> None
                 | d # _ \<Rightarrow> if isAlphaNumeric d then Some (n + 2, [quote, d]) else None)
              else None))"

text \<open>\<open>/([A-Za-z0-9.,;:!?])\s+"/g\<close>, replaced by \<open>$1"\<close>.\<close>

definition isSentencePunctuation :: "char \<Rightarrow> bool" where
  "isSentencePunctuation c = (c \<in> set '',.;:!?'')"

definition matchWordThenQuote :: "char option \<Rightarrow> string \<Rightarrow> (nat \<times> string) option" where
  "matchWordThenQuote prev s =
     (case s of
        [] \<Rightarrow> None
      | c # cs \<Rightarrow>
          (let n = runLength isWhiteSpace cs
           in if (isAlphaNumeric c \<or> isSentencePunctuation c) \<and> 1 \<le> n then
                (case drop n cs of
                   [] \<Rightarrow> None
                 | d # _ \<Rightarrow> if d = quote then Some (n + 2, [c, quote]) else None)
              else None))"

text \<open>\<open>/([,.;:!?])([^\s\n.,;:!?)}\]])/g\<close>, replaced by \<open>$1 $2\<close>.\<close>

definition matchPunctuationThenToken :: "char option \<Rightarrow> string \<Rightarrow> (nat \<times> string) option" where
  "matchPunctuationThenToken prev s =
     (case s of
        c # d # _ \<Rightarrow>
          if isSentencePunctuation c \<and> \<not> (isWhiteSpace d \<or> d = newline \<or> isClosingPunctuation d)
          then Some (2, [c, CHR '' '', d]) else None
      | _ \<Rightarrow> None)"

text \<open>\<open>/\n{3,}/g\<close>, replaced by two newlines.\<close>

definition matchNewlineRun :: "char option \<Rightarrow> string \<Rightarrow> (nat \<times> string) option" where
  "matchNewlineRun prev s =
     (let n = runLength (\<lambda>c. c = newline) s
      in if 3 \<le> n then Some (n, [newline, newline]) else None)"

definition normalizeSpacing :: "string \<Rightarrow> string" where
  "normalizeSpacing v =
     (let normalized = v;
          normalized = replace matchSpaceRun normalized;
          normalized = replace matchNewlineWithSpaces normalized;
          normalized = replace matchSpacesBeforePunctuation normalized;
          normalized = replace matchSpacesAfterOpening normalized;
          normalized = replace matchQuoteThenWord normalized;
          normalized = replace matchWordThenQuote normalized;
          normalized = replace matchPunctuationThenToken normalized;
          normalized = replace matchNewlineRun normalized
      in stripEdgeSpaces normalized)"

definition transform :: "string \<Rightarrow> SpokenFormattingResult" where
  "transform t =
     (if trim t = [] then \<lparr>result_text = [], appliedCommands = 0\<rparr>
      else (case applyRules RULES t 0 of
              (output, applied) \<Rightarrow> \<lparr>result_text = normalizeSpacing output, appliedCommands = applied\<rparr>))"

section \<open>Live chunks and the overlap deduper\<close>

text \<open>\<open>DingoFlowApp.normalizeLiveChunkOutput\<close>\<close>

definition normalizeLiveChunkOutput :: "string \<Rightarrow> string" where
  "normalizeLiveChunkOutput t =
     (let normalizedEdges = replace matchEdgeSpaces t
      in if normalizedEdges = [] then []
         else if endsWithWhitespace normalizedEdges then normalizedEdges
         else normalizedEdges @ '' '')"

text \<open>
  \<open>normalizeWord\<close>: lower case, then \<open>/^[^a-z0-9']+/\<close> and \<open>/[^a-z0-9']+$/\<close> removed.
\<close>

definition isTokenChar :: "char \<Rightarrow> bool" where
  "isTokenChar c = (isLowerAscii c \<or> isDigit c \<or> c = CHR 0x27)"

definition normalizeWord :: "string \<Rightarrow> string" where
  "normalizeWord w =
     rev (dropWhile (\<lambda>c. \<not> isTokenChar c) (rev (dropWhile (\<lambda>c. \<not> isTokenChar c) (toLowerCase w))))"

text \<open>
  The first loop of the deduper, \<open>for (size = overlapLimit; size >= 1; size -= 1)\<close>: the
  largest size at which the last words of the transcript are the first words of the chunk,
  or 0. \<open>existingNormalized.slice(-size)\<close> is \<open>drop (length e - size) e\<close>.
\<close>

fun tailHeadOverlap :: "string list \<Rightarrow> string list \<Rightarrow> nat \<Rightarrow> nat" where
  "tailHeadOverlap existingNormalized nextNormalized 0 = 0"
| "tailHeadOverlap existingNormalized nextNormalized (Suc k) =
     (if joinWords (drop (length existingNormalized - Suc k) existingNormalized) =
         joinWords (take (Suc k) nextNormalized)
      then Suc k
      else tailHeadOverlap existingNormalized nextNormalized k)"

text \<open>
  The inner loop of the floating match, \<open>for (start = latestStart; start <= end; start += 1)\<close>:
  whether the first \<open>size\<close> words of the chunk occur in the transcript at one of these starts.
\<close>

definition floatingMatchAt :: "string list \<Rightarrow> string list \<Rightarrow> int \<Rightarrow> nat \<Rightarrow> bool" where
  "floatingMatchAt existingNormalized nextNormalized searchStart size' =
     (let latestStart = max searchStart (int (length existingNormalized) - int size' - 6);
          end' = int (length existingNormalized) - int size'
      in list_ex (\<lambda>start.
            joinWords (take size' (drop (nat start) existingNormalized)) =
            joinWords (take size' nextNormalized)) [latestStart..end'])"

text \<open>The outer loop, \<open>for (size = maxSize; size >= 4; size -= 1)\<close>.\<close>

fun floatingOverlap :: "string list \<Rightarrow> string list \<Rightarrow> int \<Rightarrow> nat \<Rightarrow> nat" where
  "floatingOverlap existingNormalized nextNormalized searchStart 0 = 0"
| "floatingOverlap existingNormalized nextNormalized searchStart (Suc k) =
     (if 4 \<le> Suc k then
        (if floatingMatchAt existingNormalized nextNormalized searchStart (Suc k) then Suc k
         else floatingOverlap existingNormalized nextNormalized searchStart k)
      else 0)"

text \<open>
  The number \<open>overlapWords\<close> that \<open>dedupeChunkAgainstLiveTranscript\<close> computes from the
  words of the transcript and of the chunk.
\<close>

definition overlapWords :: "string list \<Rightarrow> string list \<Rightarrow> nat" where
  "overlapWords existingWords nextWords =
     (let existingNormalized = map normalizeWord existingWords;
          nextNormalized = map normalizeWord nextWords;
          overlapLimit = min (length existingWords) (min (length nextWords) 20);
          overlap = tailHeadOverlap existingNormalized nextNormalized overlapLimit
      in if overlap = 0 \<and> 4 \<le> length nextWords then
           (let searchTailWords = min (length existingWords) 28;
                searchStart = int (length existingWords) - int searchTailWords;
                maxSize = min (length nextWords) (min 16 searchTailWords)
            in floatingOverlap existingNormalized nextNormalized searchStart maxSize)
         else overlap)"

text \<open>
  \<open>DingoFlowApp.dedupeChunkAgainstLiveTranscript\<close>; the field \<open>liveInjectedText\<close> it reads
  is the first argument.
\<close>

definition dedupeChunkAgainstLiveTranscript :: "string \<Rightarrow> string \<Rightarrow> string" where
  "dedupeChunkAgainstLiveTranscript liveInjectedText nextChunk =
     (if trim nextChunk = [] \<or> trim liveInjectedText = [] then nextChunk
      else if newline \<in> set nextChunk \<or> newline \<in> set liveInjectedText then nextChunk
      else
        (let existingWords = splitWhitespace [] (trim liveInjectedText);
             nextWords = splitWhitespace [] (trim nextChunk)
         in if length existingWords = 0 \<or> length nextWords = 0 then nextChunk
            else if overlapWords existingWords nextWords = 0 then nextChunk
            else
              (let dedupedWords = drop (overlapWords existingWords nextWords) nextWords
               in if length dedupedWords = 0 then []
                  else joinWords dedupedWords @
                       (if endsWithWhitespace nextChunk then '' '' else []))))"

section \<open>Notions used to state the properties of the queue\<close>

text \<open>The bytes still queued, in order, and the sum the pending-byte counter stands for.\<close>

definition queued_bytes :: "QueuedAudioChunk list \<Rightarrow> byte list" where
  "queued_bytes q = concat (map (\<lambda>c. drop (nat (offset c)) (data c)) q)"

definition pending_sum :: "QueuedAudioChunk list \<Rightarrow> int" where
  "pending_sum q = sum_list (map (\<lambda>c. int (length (data c)) - offset c) q)"

definition offsets_ok :: "QueuedAudioChunk list \<Rightarrow> bool" where
  "offsets_ok q = list_all (\<lambda>c. 0 \<le> offset c \<and> offset c \<le> int (length (data c))) q"

definition queue_inv :: "AudioQueue \<Rightarrow> bool" where
  "queue_inv q = (offsets_ok (pendingAudioQueue q) \<and>
                  pendingAudioBytes q = pending_sum (pendingAudioQueue q))"

section \<open>DingoFlowApp\<close>

datatype PipelineStage = Idle | Recording | Transcribing | Formatting | Injecting | Error

record AppState =
  stage :: PipelineStage
  detail :: "string option"

datatype FormatMode = Literal | Clean | Rewrite

datatype AsrBackend = FasterWhisper | ParakeetMlx | ParakeetNative | WhisperNative

text \<open>
  The options the orchestrator reads. The three stream-context options are only handed to
  the ASR worker and are left out.
\<close>

record DingoFlowLatencyOptions =
  asrBackend :: AsrBackend
  spokenFormattingCommands :: bool
  liveStreamChunkMs :: real
  minAsrWindowMs :: real
  normalAsrWindowMs :: real
  backlogAsrWindowMs :: real
  maxAsrWindowMs :: real
  adaptiveAsrWindow :: bool
  parakeetFinalPass :: bool
  silenceGateDbfs :: real
  speechHangoverMs :: real

record SliceLatencySample =
  queueMs :: real
  audioMs :: real
  asrMs :: real
  injectMs :: real
  endToEndMs :: real

text \<open>
  What the application does to the outside: the events it emits and the calls it makes on
  the injector, in order.
\<close>

datatype effect =
    StateChanged AppState
  | DictationCompleted string string
  | Inject string
  | ReplaceRecentText string string

text \<open>How an awaited call of a collaborator ends: it resolves, or it rejects with a message.\<close>

datatype completion = Completed | Thrown string

text \<open>
  The fields of the class. The three queue fields are grouped in \<open>audio\<close>;
  \<open>latencyTracker\<close> is the list of samples the tracker holds; \<open>emitted\<close> is not a field
  of the class, it records the effects so far. The fields that guard re-entrancy
  (\<open>stopInProgress\<close>, \<open>asrLoopActive\<close>, \<open>asrLoopPromise\<close>) have no counterpart: the
  model runs one callback at a time, in the order its caller gives.
\<close>

record DingoFlowApp =
  state :: AppState
  mode :: FormatMode
  recordingActive :: bool
  acceptingAudio :: bool
  asrRequestCount :: nat
  rawTranscriptParts :: "string list"
  liveInjectedText :: string
  audio :: AudioQueue
  latencyTracker :: "SliceLatencySample list"
  dynamicNormalAsrWindowMs :: real
  ewmaAsrRtf :: real
  ewmaAsrMs :: real
  speechHangoverUntilMs :: real
  emitted :: "effect list"

definition AUDIO_SAMPLE_RATE :: int where
  "AUDIO_SAMPLE_RATE = 16000"

definition clamp :: "real \<Rightarrow> real \<Rightarrow> real \<Rightarrow> real" where
  "clamp v lo hi = max lo (min hi v)"

text \<open>The field initialisers and the constructor.\<close>

definition newDingoFlowApp :: "DingoFlowLatencyOptions \<Rightarrow> DingoFlowApp" where
  "newDingoFlowApp options =
     \<lparr>state = \<lparr>stage = Idle, detail = None\<rparr>,
      mode = Clean,
      recordingActive = False,
      acceptingAudio = False,
      asrRequestCount = 0,
      rawTranscriptParts = [],
      liveInjectedText = [],
      audio = emptyQueue,
      latencyTracker = [],
      dynamicNormalAsrWindowMs = normalAsrWindowMs options,
      ewmaAsrRtf = 1,
      ewmaAsrMs = 0,
      speechHangoverUntilMs = 0,
      emitted = []\<rparr>"

definition setState :: "AppState \<Rightarrow> DingoFlowApp \<Rightarrow> DingoFlowApp" where
  "setState next s = s\<lparr>state := next, emitted := emitted s @ [StateChanged next]\<rparr>"

definition msToBytes :: "real \<Rightarrow> int" where
  "msToBytes ms = max 1 \<lfloor>(real_of_int AUDIO_SAMPLE_RATE * 2 * ms) / 1000\<rfloor>"

definition bytesToMs :: "int \<Rightarrow> real" where
  "bytesToMs bytes = (real_of_int bytes / (2 * real_of_int AUDIO_SAMPLE_RATE)) * 1000"

text \<open>
  \<open>startRecording\<close>. \<open>started\<close> is how the two awaited calls, the recorder's
  \<open>startStreaming\<close> and the worker's \<open>startStream\<close>, end together; a rejection rolls the
  flags and the queue back and is thrown on.
\<close>

definition startRecording ::
  "DingoFlowLatencyOptions \<Rightarrow> completion \<Rightarrow> DingoFlowApp \<Rightarrow> completion \<times> DingoFlowApp" where
  "startRecording options started s =
     (let s1 = s\<lparr>recordingActive := True,
                  acceptingAudio := True,
                  asrRequestCount := 0,
                  rawTranscriptParts := [],
                  liveInjectedText := [],
                  audio := emptyQueue,
                  dynamicNormalAsrWindowMs := normalAsrWindowMs options,
                  ewmaAsrRtf := 1,
                  ewmaAsrMs := normalAsrWindowMs options,
                  speechHangoverUntilMs := 0,
                  latencyTracker := []\<rparr>
      in case started of
           Thrown e \<Rightarrow>
             (Thrown e,
              s1\<lparr>acceptingAudio := False,
                 recordingActive := False,
                 audio := (audio s1)\<lparr>pendingAudioQueue := [], pendingAudioBytes := 0\<rparr>\<rparr>)
         | Completed \<Rightarrow>
             (Completed,
              setState \<lparr>stage = Recording, detail = Some ''Live dictation (adaptive streaming)''\<rparr> s1))"

definition handlePushToTalkPressed ::
  "DingoFlowLatencyOptions \<Rightarrow> completion \<Rightarrow> DingoFlowApp \<Rightarrow> DingoFlowApp" where
  "handlePushToTalkPressed options started s =
     (if stage (state s) = Recording then s
      else if stage (state s) \<noteq> Idle \<and> stage (state s) \<noteq> Error then s
      else (case startRecording options started s of
              (Completed, s') \<Rightarrow> s'
            | (Thrown e, s') \<Rightarrow> setState \<lparr>stage = Error, detail = Some e\<rparr> s'))"

text \<open>The capture callback \<open>onChunk\<close> that \<open>startRecording\<close> registers.\<close>

definition onChunk :: "real \<Rightarrow> byte list \<Rightarrow> DingoFlowApp \<Rightarrow> DingoFlowApp" where
  "onChunk now chunk s =
     (if \<not> acceptingAudio s \<or> length chunk = 0 then s
      else s\<lparr>audio := enqueueAudioChunk now chunk (audio s)\<rparr>)"

definition takeNextAudioSlice ::
  "DingoFlowLatencyOptions \<Rightarrow> real \<Rightarrow> bool \<Rightarrow> DingoFlowApp
     \<Rightarrow> PendingAudioSlice option \<times> DingoFlowApp" where
  "takeNextAudioSlice options now forceFlush s =
     (let pending = pendingAudioBytes (audio s)
      in if pending = 0 then (None, s)
         else
           (let minBytes = msToBytes (minAsrWindowMs options)
            in if \<not> forceFlush \<and> pending < minBytes then (None, s)
               else
                 (let pendingMs = bytesToMs pending;
                      targetMs = (if adaptiveAsrWindow options then dynamicNormalAsrWindowMs s
                                  else normalAsrWindowMs options);
                      targetMs = (if pendingMs \<ge> backlogAsrWindowMs options * 2
                                  then maxAsrWindowMs options
                                  else if pendingMs \<ge> backlogAsrWindowMs options
                                  then max targetMs (backlogAsrWindowMs options)
                                  else targetMs);
                      targetMs = clamp targetMs (minAsrWindowMs options) (maxAsrWindowMs options);
                      takeBytes = (if forceFlush then pending else min pending (msToBytes targetMs))
                  in if takeBytes \<le> 0 then (None, s)
                     else (case readPendingAudioSlice now takeBytes (audio s) of
                             (r, q) \<Rightarrow> (r, s\<lparr>audio := q\<rparr>)))))"

text \<open>
  \<open>audio.readInt16LE(index)\<close> on the two bytes at \<open>index\<close>, and the samples the loop of
  \<open>estimateDbfs\<close> reads, each divided by 32768.
\<close>

definition readInt16LE :: "byte \<Rightarrow> byte \<Rightarrow> int" where
  "readInt16LE lo hi =
     (let u = uint lo + 256 * uint hi in if u \<ge> 32768 then u - 65536 else u)"

fun samples :: "byte list \<Rightarrow> real list" where
  "samples (lo # hi # rest) = (real_of_int (readInt16LE lo hi) / 32768) # samples rest"
| "samples [b] = []"
| "samples [] = []"

text \<open>
  \<open>estimateDbfs\<close>, over the real numbers: the rounding of the floating-point sum, square
  root and logarithm is not modelled.
\<close>

definition estimateDbfs :: "byte list \<Rightarrow> real" where
  "estimateDbfs audioData =
     (if length audioData < 2 then - 120
      else
        (let sumSquares = sum_list (map (\<lambda>sample. sample * sample) (samples audioData));
             sampleCount = length (samples audioData)
         in if sampleCount = 0 then - 120
            else
              (let rms = sqrt (sumSquares / real sampleCount)
               in if rms \<le> 0 then - 120 else 20 * log 10 rms)))"

definition updateAdaptiveWindow ::
  "DingoFlowLatencyOptions \<Rightarrow> real \<Rightarrow> real \<Rightarrow> real \<Rightarrow> DingoFlowApp \<Rightarrow> DingoFlowApp" where
  "updateAdaptiveWindow options audioMs' asrElapsedMs pendingMs s =
     (let alpha = 0.18;
          rtf = asrElapsedMs / max audioMs' 1;
          s1 = s\<lparr>ewmaAsrRtf := ewmaAsrRtf s * (1 - alpha) + rtf * alpha\<rparr>;
          s2 = s1\<lparr>ewmaAsrMs := ewmaAsrMs s1 * (1 - alpha) + asrElapsedMs * alpha\<rparr>
      in if \<not> adaptiveAsrWindow options then s2
         else
           (let next = dynamicNormalAsrWindowMs s2;
                next = (if pendingMs \<ge> backlogAsrWindowMs options \<or> ewmaAsrRtf s2 > 1.0
                        then next + 24
                        else if pendingMs \<le> minAsrWindowMs options \<and> ewmaAsrRtf s2 < 0.68
                        then next - 10
                        else if pendingMs \<le> normalAsrWindowMs options / 2 \<and> ewmaAsrRtf s2 < 0.8
                        then next - 4
                        else next);
                clamped = clamp next (minAsrWindowMs options) (maxAsrWindowMs options)
            in if clamped \<noteq> dynamicNormalAsrWindowMs s2
               then s2\<lparr>dynamicNormalAsrWindowMs := clamped\<rparr>
               else s2))"

text \<open>
  The seven readings of \<open>Date.now()\<close> in \<open>processAudioSlice\<close>, in the order of the code.
\<close>

record SliceClock =
  atEntry :: real
  nowMs :: real
  asrStartedAt :: real
  asrFinishedAt :: real
  injectStartedAt :: real
  injectFinishedAt :: real
  atEnd :: real

text \<open>
  What the outside answers during one call of \<open>processAudioSlice\<close>: the text of the ASR
  result (\<open>None\<close> when the request rejects), the chunks the capture callback delivers
  while the request is awaited, and how the injector's \<open>inject\<close> ends.
\<close>

record SliceResponses =
  clock :: SliceClock
  asrText :: "string option"
  arrivedDuringAsr :: "(real \<times> byte list) list"
  injected :: completion

definition spokenCommands :: "DingoFlowLatencyOptions \<Rightarrow> string \<Rightarrow> SpokenFormattingResult" where
  "spokenCommands options t =
     (if spokenFormattingCommands options then transform t
      else \<lparr>result_text = t, appliedCommands = 0\<rparr>)"

definition processAudioSlice ::
  "DingoFlowLatencyOptions \<Rightarrow> SliceResponses \<Rightarrow> PendingAudioSlice \<Rightarrow> DingoFlowApp
     \<Rightarrow> completion \<times> DingoFlowApp" where
  "processAudioSlice options r audioSlice s =
     (let queueDelayMs = max 0 (atEntry (clock r) - oldestEnqueuedAtMs audioSlice);
          audioMs' = bytesToMs (int (length (slice_data audioSlice)));
          audioLevelDbfs = estimateDbfs (slice_data audioSlice);
          hasSpeechEnergy = (audioLevelDbfs \<ge> silenceGateDbfs options)
      in if \<not> hasSpeechEnergy \<and> nowMs (clock r) > speechHangoverUntilMs s then (Completed, s)
         else
           (let s1 = (if hasSpeechEnergy
                      then s\<lparr>speechHangoverUntilMs := nowMs (clock r) + speechHangoverMs options\<rparr>
                      else s);
                s2 = fold (\<lambda>(now, chunk). onChunk now chunk) (arrivedDuringAsr r) s1;
                asrElapsedMs = asrFinishedAt (clock r) - asrStartedAt (clock r);
                s3 = updateAdaptiveWindow options audioMs' asrElapsedMs
                       (bytesToMs (pendingAudioBytes (audio s2))) s2
            in case asrText r of
                 None \<Rightarrow> (Completed, s3)
               | Some resultText \<Rightarrow>
                   (let rawChunk = trim resultText
                    in if rawChunk = [] then (Completed, s3)
                       else
                         (let commandResult = spokenCommands options rawChunk
                          in if result_text commandResult = [] then (Completed, s3)
                             else
                               (let normalizedChunk = normalizeLiveChunkOutput (result_text commandResult)
                                in if normalizedChunk = [] then (Completed, s3)
                                   else
                                     (let dedupedChunk =
                                            dedupeChunkAgainstLiveTranscript (liveInjectedText s3) normalizedChunk
                                      in if dedupedChunk = [] then (Completed, s3)
                                         else
                                           (let s4 = s3\<lparr>rawTranscriptParts := rawTranscriptParts s3 @ [dedupedChunk],
                                                         liveInjectedText := liveInjectedText s3 @ dedupedChunk,
                                                         emitted := emitted s3 @ [Inject dedupedChunk]\<rparr>
                                            in case injected r of
                                                 Thrown e \<Rightarrow> (Thrown e, s4)
                                               | Completed \<Rightarrow>
                                                   (Completed,
                                                    s4\<lparr>latencyTracker := latencyTracker s4 @
                                                         [\<lparr>queueMs = queueDelayMs,
                                                           audioMs = audioMs',
                                                           asrMs = asrElapsedMs,
                                                           injectMs = injectFinishedAt (clock r) - injectStartedAt (clock r),
                                                           endToEndMs = max 0 (atEnd (clock r) - oldestEnqueuedAtMs audioSlice)\<rparr>]\<rparr>))))))))"

definition DEFAULT_LATENCY_OPTIONS :: DingoFlowLatencyOptions where
  "DEFAULT_LATENCY_OPTIONS =
     \<lparr>asrBackend = ParakeetNative,
      spokenFormattingCommands = True,
      liveStreamChunkMs = 120,
      minAsrWindowMs = 90,
      normalAsrWindowMs = 180,
      backlogAsrWindowMs = 360,
      maxAsrWindowMs = 640,
      adaptiveAsrWindow = True,
      parakeetFinalPass = False,
      silenceGateDbfs = - 52,
      speechHangoverMs = 420\<rparr>"

text \<open>
  \<open>processStreamFlush\<close>. \<open>flushStream\<close> is \<open>None\<close> when the ASR service has no such
  method, \<open>Some None\<close> when the call rejects, and the text of the result otherwise.
\<close>

record FlushResponses =
  flushStream :: "string option option"
  flushInjected :: completion

definition processStreamFlush ::
  "DingoFlowLatencyOptions \<Rightarrow> FlushResponses \<Rightarrow> DingoFlowApp \<Rightarrow> completion \<times> DingoFlowApp" where
  "processStreamFlush options r s =
     (if asrBackend options = ParakeetNative then (Completed, s)
      else
        (case flushStream r of
           None \<Rightarrow> (Completed, s)
         | Some None \<Rightarrow> (Completed, s)
         | Some (Some resultText) \<Rightarrow>
             if trim resultText = [] then (Completed, s)
             else
               (let tailText = trim resultText;
                    tailCommandResult = spokenCommands options tailText
                in if result_text tailCommandResult = [] then (Completed, s)
                   else
                     (let normalizedTail = normalizeLiveChunkOutput (result_text tailCommandResult)
                      in if normalizedTail = [] then (Completed, s)
                         else
                           (let s1 = s\<lparr>rawTranscriptParts := rawTranscriptParts s @ [normalizedTail],
                                         liveInjectedText := liveInjectedText s @ normalizedTail,
                                         emitted := emitted s @ [Inject normalizedTail]\<rparr>
                            in case flushInjected r of
                                 Thrown e \<Rightarrow> (Thrown e, s1)
                               | Completed \<Rightarrow> (Completed, s1))))))"

text \<open>
  One iteration of the \<open>while (true)\<close> loop of \<open>runAsrLoop\<close>: the result is \<open>None\<close> when
  \<open>takeNextAudioSlice\<close> returns nothing and the loop breaks.
\<close>

record LoopResponses =
  takeNow :: real
  sliceResponses :: SliceResponses

definition loopIteration ::
  "DingoFlowLatencyOptions \<Rightarrow> LoopResponses \<Rightarrow> DingoFlowApp \<Rightarrow> completion option \<times> DingoFlowApp" where
  "loopIteration options r s =
     (case takeNextAudioSlice options (takeNow r) (\<not> recordingActive s) s of
        (None, s') \<Rightarrow> (None, s')
      | (Some next, s') \<Rightarrow>
          (case processAudioSlice options (sliceResponses r) next
                  (s'\<lparr>asrRequestCount := asrRequestCount s' + 1\<rparr>) of
             (c, s'') \<Rightarrow> (Some c, s'')))"

text \<open>
  What happens while a session records: the capture callback delivers a chunk, or the ASR
  loop runs one iteration. Any list of events is a schedule; those of the code, where
  \<open>ensureAsrLoop\<close> starts an iteration as soon as a chunk is queued and no loop runs, are
  among them. An iteration that throws rejects the promise of the loop, which nobody
  awaits before the drain, and the next one belongs to the loop that the \<open>finally\<close>
  block starts.
\<close>

datatype session_event = ChunkArrived real "byte list" | LoopIteration LoopResponses

fun run_events :: "DingoFlowLatencyOptions \<Rightarrow> session_event list \<Rightarrow> DingoFlowApp \<Rightarrow> DingoFlowApp" where
  "run_events options [] s = s"
| "run_events options (ChunkArrived now chunk # es) s = run_events options es (onChunk now chunk s)"
| "run_events options (LoopIteration r # es) s = run_events options es (snd (loopIteration options r s))"

text \<open>
  \<open>waitForAsrDrain\<close>: the loop is started again until no byte is pending. The list holds
  the answers of the outside, one for each iteration; \<open>None\<close> means that the queue is
  not empty when they are used up.
\<close>

fun waitForAsrDrain ::
  "DingoFlowLatencyOptions \<Rightarrow> LoopResponses list \<Rightarrow> DingoFlowApp
     \<Rightarrow> (completion \<times> DingoFlowApp) option" where
  "waitForAsrDrain options rs s =
     (if pendingAudioBytes (audio s) = 0 then Some (Completed, s)
      else (case rs of
              [] \<Rightarrow> None
            | r # rest \<Rightarrow>
                (case loopIteration options r s of
                   (Some (Thrown e), s') \<Rightarrow> Some (Thrown e, s')
                 | (_, s') \<Rightarrow> waitForAsrDrain options rest s')))"

declare waitForAsrDrain.simps [simp del]

text \<open>\<open>/[ \t]+\n/g\<close>, replaced by a newline.\<close>

definition matchSpacesBeforeNewline :: "char option \<Rightarrow> string \<Rightarrow> (nat \<times> string) option" where
  "matchSpacesBeforeNewline prev s =
     (let n = runLength isHorizontalSpace s
      in if 1 \<le> n then
           (case drop n s of
              [] \<Rightarrow> None
            | d # _ \<Rightarrow> if d = newline then Some (n + 1, [newline]) else None)
         else None)"

text \<open>The raw transcript that \<open>stopAndProcess\<close> builds from \<open>rawTranscriptParts\<close>.\<close>

definition joinedRawTranscript :: "string list \<Rightarrow> string" where
  "joinedRawTranscript parts =
     trim (replace matchSpaceRun (replace matchNewlineRun (replace matchSpacesBeforeNewline (concat parts))))"

text \<open>
  The answers of the outside during \<open>stopAndProcess\<close>: how the recorder's \<open>stop\<close> ends and
  what happens while it is awaited, the iterations of the drain, the flush, the text of
  the final pass (\<open>None\<close> when it rejects), whether the injector has \<open>replaceRecentText\<close>
  and how its calls end, and the text of the formatter (\<open>None\<close> when it rejects).
\<close>

record StopResponses =
  recorderStopped :: completion
  duringStop :: "session_event list"
  drainIterations :: "LoopResponses list"
  flushResponses :: FlushResponses
  finalPassText :: "string option"
  hasReplaceRecentText :: bool
  finalReplaced :: completion
  formattedText :: "string option"
  formatReplaced :: completion

text \<open>The final native Parakeet pass; the result is the raw transcript to go on with.\<close>

definition finalPass ::
  "DingoFlowLatencyOptions \<Rightarrow> StopResponses \<Rightarrow> string \<Rightarrow> DingoFlowApp
     \<Rightarrow> completion \<times> string \<times> DingoFlowApp" where
  "finalPass options r rawTranscript s =
     (if asrBackend options = ParakeetNative \<and> parakeetFinalPass options \<and>
         length (sessionAudioChunks (audio s)) > 0 then
        (let s1 = setState \<lparr>stage = Transcribing, detail = Some ''Final native Parakeet pass''\<rparr> s;
             finalRawTranscript = (case finalPassText r of None \<Rightarrow> [] | Some t \<Rightarrow> trim t)
         in if finalRawTranscript \<noteq> [] then
              (if finalRawTranscript \<noteq> rawTranscript \<and> hasReplaceRecentText r then
                 (let s2 = setState \<lparr>stage = Injecting, detail = Some ''Applying final ASR correction''\<rparr> s1;
                      s3 = s2\<lparr>emitted := emitted s2 @
                              [ReplaceRecentText (trimEnd (liveInjectedText s2)) finalRawTranscript]\<rparr>
                  in case finalReplaced r of
                       Thrown e \<Rightarrow> (Thrown e, rawTranscript, s3)
                     | Completed \<Rightarrow>
                         (Completed, finalRawTranscript,
                          s3\<lparr>liveInjectedText := finalRawTranscript @ '' ''\<rparr>))
               else (Completed, finalRawTranscript, s1))
            else (Completed, rawTranscript, s1))
      else (Completed, rawTranscript, s))"

text \<open>The rest of the \<open>try\<close> block, from \<open>if (!rawTranscript)\<close> on.\<close>

definition completeDictation ::
  "StopResponses \<Rightarrow> string \<Rightarrow> DingoFlowApp \<Rightarrow> completion \<times> DingoFlowApp" where
  "completeDictation r rawTranscript s =
     (if rawTranscript = [] then
        (Completed, setState \<lparr>stage = Idle, detail = Some ''No speech detected''\<rparr> s)
      else
        (let s1 = setState \<lparr>stage = Formatting, detail = Some ''Final formatting pass''\<rparr> s;
             formatted = (case formattedText r of None \<Rightarrow> rawTranscript | Some f \<Rightarrow> f);
             finalText = (if trim formatted = [] then rawTranscript else trim formatted)
         in if finalText \<noteq> rawTranscript \<and> hasReplaceRecentText r then
              (let s2 = setState \<lparr>stage = Injecting, detail = Some ''Applying formatted correction''\<rparr> s1;
                   s3 = s2\<lparr>emitted := emitted s2 @
                           [ReplaceRecentText (trimEnd (liveInjectedText s2)) finalText]\<rparr>
               in case formatReplaced r of
                    Thrown e \<Rightarrow> (Thrown e, s3)
                  | Completed \<Rightarrow>
                      (Completed,
                       setState \<lparr>stage = Idle, detail = None\<rparr>
                         (s3\<lparr>emitted := emitted s3 @ [DictationCompleted rawTranscript finalText]\<rparr>)))
            else
              (Completed,
               setState \<lparr>stage = Idle, detail = None\<rparr>
                 (s1\<lparr>emitted := emitted s1 @ [DictationCompleted rawTranscript finalText]\<rparr>))))"

text \<open>The \<open>try\<close> block of \<open>stopAndProcess\<close>.\<close>

definition stopAndProcessBody ::
  "DingoFlowLatencyOptions \<Rightarrow> StopResponses \<Rightarrow> DingoFlowApp
     \<Rightarrow> (completion \<times> DingoFlowApp) option" where
  "stopAndProcessBody options r s =
     (let s1 = run_events options (duringStop r) (s\<lparr>recordingActive := False\<rparr>)
      in case recorderStopped r of
           Thrown e \<Rightarrow> Some (Thrown e, s1)
         | Completed \<Rightarrow>
             (let s2 = setState \<lparr>stage = Transcribing, detail = Some ''Draining audio queue''\<rparr>
                         (s1\<lparr>acceptingAudio := False\<rparr>)
              in case waitForAsrDrain options (drainIterations r) s2 of
                   None \<Rightarrow> None
                 | Some (Thrown e, s3) \<Rightarrow> Some (Thrown e, s3)
                 | Some (Completed, s3) \<Rightarrow>
                     (case processStreamFlush options (flushResponses r) s3 of
                        (Thrown e, s4) \<Rightarrow> Some (Thrown e, s4)
                      | (Completed, s4) \<Rightarrow>
                          (case finalPass options r (joinedRawTranscript (rawTranscriptParts s4)) s4 of
                             (Thrown e, rawTranscript, s5) \<Rightarrow> Some (Thrown e, s5)
                           | (Completed, rawTranscript, s5) \<Rightarrow>
                               Some (completeDictation r rawTranscript s5)))))"

text \<open>\<open>stopAndProcess\<close>, with its \<open>catch\<close> and \<open>finally\<close> blocks.\<close>

definition stopAndProcess ::
  "DingoFlowLatencyOptions \<Rightarrow> StopResponses \<Rightarrow> DingoFlowApp \<Rightarrow> DingoFlowApp option" where
  "stopAndProcess options r s =
     (case stopAndProcessBody options r s of
        None \<Rightarrow> None
      | Some (c, s1) \<Rightarrow>
          (let s2 = (case c of
                       Thrown e \<Rightarrow> setState \<lparr>stage = Error, detail = Some e\<rparr> s1
                     | Completed \<Rightarrow> s1)
           in Some (s2\<lparr>acceptingAudio := False,
                       recordingActive := False,
                       asrRequestCount := 0,
                       rawTranscriptParts := [],
                       liveInjectedText := [],
                       audio := emptyQueue,
                       latencyTracker := []\<rparr>)))"

definition handlePushToTalkReleased ::
  "DingoFlowLatencyOptions \<Rightarrow> StopResponses \<Rightarrow> DingoFlowApp \<Rightarrow> DingoFlowApp option" where
  "handlePushToTalkReleased options r s =
     (if stage (state s) \<noteq> Recording then Some s else stopAndProcess options r s)"

section \<open>The recorders\<close>

text \<open>
  The fields of \<open>FfmpegRecorder\<close> and of \<open>RustNativeRecorder\<close> that \<open>startStreaming\<close>
  sets; \<open>processActive\<close> stands for \<open>Boolean(this.process)\<close>.
\<close>

record Recorder =
  processActive :: bool
  pendingChunks :: "byte list list"
  pendingChunkOffset :: int
  pendingBytes :: int
  chunkByteSize :: int

text \<open>
  The errors of \<open>startStreaming\<close>: \<open>'Recorder is already active'\<close>,
  \<open>'chunkDurationMs must be between ... and 2000.'\<close>,
  \<open>'Native recorder binary not found ...'\<close>, and the failure of the child process to start.
\<close>

datatype recorder_error =
    AlreadyActive
  | ChunkDurationOutOfRange
  | BinaryNotFound
  | StartFailed string

text \<open>
  \<open>FfmpegRecorder.startStreaming\<close>; \<open>started\<close> is how the promise that waits for the
  child process ends.
\<close>

definition FfmpegRecorder_startStreaming ::
  "real \<Rightarrow> completion \<Rightarrow> Recorder \<Rightarrow> recorder_error + Recorder" where
  "FfmpegRecorder_startStreaming chunkDurationMs started r =
     (if processActive r then Inl AlreadyActive
      else if chunkDurationMs < 40 \<or> chunkDurationMs > 2000 then Inl ChunkDurationOutOfRange
      else
        (let r1 = r\<lparr>pendingChunks := [],
                     pendingChunkOffset := 0,
                     pendingBytes := 0,
                     chunkByteSize := max 1 \<lfloor>(16000 * 2 * chunkDurationMs) / 1000\<rfloor>\<rparr>
         in case started of
              Thrown e \<Rightarrow> Inl (StartFailed e)
            | Completed \<Rightarrow> Inr (r1\<lparr>processActive := True\<rparr>)))"

text \<open>\<open>RustNativeRecorder.startStreaming\<close>; \<open>binaryExists\<close> is \<open>fs.existsSync(this.binaryPath)\<close>.\<close>

definition RustNativeRecorder_startStreaming ::
  "real \<Rightarrow> bool \<Rightarrow> completion \<Rightarrow> Recorder \<Rightarrow> recorder_error + Recorder" where
  "RustNativeRecorder_startStreaming chunkDurationMs binaryExists started r =
     (if processActive r then Inl AlreadyActive
      else if chunkDurationMs < 20 \<or> chunkDurationMs > 2000 then Inl ChunkDurationOutOfRange
      else if \<not> binaryExists then Inl BinaryNotFound
      else
        (let r1 = r\<lparr>pendingChunks := [],
                     pendingChunkOffset := 0,
                     pendingBytes := 0,
                     chunkByteSize := max 1 \<lfloor>(16000 * 2 * chunkDurationMs) / 1000\<rfloor>\<rparr>
         in case started of
              Thrown e \<Rightarrow> Inl (StartFailed e)
            | Completed \<Rightarrow> Inr (r1\<lparr>processActive := True\<rparr>)))"

text \<open>A recorder as its constructor leaves it.\<close>

definition newRecorder :: Recorder where
  "newRecorder = \<lparr>processActive = False, pendingChunks = [], pendingChunkOffset = 0,
                   pendingBytes = 0, chunkByteSize = 0\<rparr>"

section \<open>Notions used to state the properties of the application\<close>

text \<open>
  A sequence of calls of \<open>updateAdaptiveWindow\<close>, each with its \<open>audioMs\<close>,
  \<open>asrElapsedMs\<close> and \<open>pendingMs\<close>.
\<close>

fun run_updates ::
  "DingoFlowLatencyOptions \<Rightarrow> (real \<times> real \<times> real) list \<Rightarrow> DingoFlowApp \<Rightarrow> DingoFlowApp" where
  "run_updates options [] s = s"
| "run_updates options ((audioMs', asrElapsedMs, pendingMs) # ups) s =
     run_updates options ups (updateAdaptiveWindow options audioMs' asrElapsedMs pendingMs s)"

definition window_in_range :: "DingoFlowLatencyOptions \<Rightarrow> DingoFlowApp \<Rightarrow> bool" where
  "window_in_range options s =
     (minAsrWindowMs options \<le> dynamicNormalAsrWindowMs s \<and>
      dynamicNormalAsrWindowMs s \<le> maxAsrWindowMs options)"

text \<open>
  The number \<open>overlapWords\<close> of a call of the deduper, or 0 where the call returns the
  chunk before it looks at the words. It serves the proofs only.
\<close>

definition detectedOverlap :: "string \<Rightarrow> string \<Rightarrow> nat" where
  "detectedOverlap live nextChunk =
     (if trim nextChunk = [] \<or> trim live = [] \<or>
         newline \<in> set nextChunk \<or> newline \<in> set live then 0
      else overlapWords (splitWhitespace [] (trim live))
                        (splitWhitespace [] (trim nextChunk)))"

text \<open>
  The overlap of the specification (4.E), in its words and not from the loops of the code,
  on two lists of normalised words \<open>e\<close> (the transcript) and \<open>n\<close> (a chunk). Step 4, the
  tail-head match: for a size from 1 to \<open>min(|E|, |N|, 20)\<close>, the last \<open>size\<close> words of
  \<open>e\<close> are the first \<open>size\<close> words of \<open>n\<close>. Step 5, the floating match: for a size from 4
  to \<open>min(|N|, 16, |E|, 28)\<close>, the first \<open>size\<close> words of \<open>n\<close> occur in \<open>e\<close> at a start no
  earlier than \<open>|E| - size - 6\<close>.
\<close>

definition tailHeadMatch :: "string list \<Rightarrow> string list \<Rightarrow> bool" where
  "tailHeadMatch e n =
     (\<exists>size' \<in> set [1 ..< Suc (min (length e) (min (length n) 20))].
        drop (length e - size') e = take size' n)"

definition floatingMatch :: "string list \<Rightarrow> string list \<Rightarrow> bool" where
  "floatingMatch e n =
     (\<exists>size' \<in> set [4 ..< Suc (min (length n) (min 16 (min (length e) 28)))].
        \<exists>start \<in> set [length e - size' - 6 ..< Suc (length e - size')].
          take size' (drop start e) = take size' n)"

definition furtherOverlap :: "string list \<Rightarrow> string list \<Rightarrow> bool" where
  "furtherOverlap e n = (tailHeadMatch e n \<or> floatingMatch e n)"

text \<open>
  Steps 1 to 3 of the specification: the words of a side, and the case where the chunk is
  returned as it is because a side is blank or holds a newline.
\<close>

definition tokenise :: "string \<Rightarrow> string list" where
  "tokenise s = splitWhitespace [] (trim s)"

definition passesThrough :: "string \<Rightarrow> string \<Rightarrow> bool" where
  "passesThrough live chunk =
     (trim chunk = [] \<or> trim live = [] \<or> newline \<in> set chunk \<or> newline \<in> set live)"

text \<open>The words of a chunk that one application of the deduper does not drop.\<close>

definition remainingWords :: "string \<Rightarrow> string \<Rightarrow> string list" where
  "remainingWords live chunk =
     drop (overlapWords (tokenise live) (tokenise chunk)) (tokenise chunk)"

text \<open>Words that are not empty and hold no whitespace.\<close>

definition goodTokens :: "string list \<Rightarrow> bool" where
  "goodTokens ws = (\<forall>w\<in>set ws. w \<noteq> [] \<and> (\<forall>c\<in>set w. \<not> isWhiteSpace c))"

text \<open>The effects that are changes of the session state.\<close>

fun is_state_change :: "effect \<Rightarrow> bool" where
  "is_state_change (StateChanged st) = True"
| "is_state_change (Inject t) = False"
| "is_state_change (DictationCompleted rawTranscript formatted) = False"
| "is_state_change (ReplaceRecentText existing replacement) = False"

text \<open>Silence: every byte of every chunk that arrives is zero.\<close>

fun loop_responses_of :: "session_event \<Rightarrow> LoopResponses list" where
  "loop_responses_of (ChunkArrived now chunk) = []"
| "loop_responses_of (LoopIteration r) = [r]"

fun chunk_of :: "session_event \<Rightarrow> byte list" where
  "chunk_of (ChunkArrived now chunk) = chunk"
| "chunk_of (LoopIteration r) = []"

definition silent_events :: "session_event list \<Rightarrow> bool" where
  "silent_events es = list_all (\<lambda>e. list_all (\<lambda>b. b = 0) (chunk_of e)) es"

text \<open>The clock is past zero whenever a slice is looked at.\<close>

definition clocks_positive :: "LoopResponses list \<Rightarrow> bool" where
  "clocks_positive rs = list_all (\<lambda>r. 0 < nowMs (clock (sliceResponses r))) rs"

text \<open>
  What holds of the application as long as a session has heard only silence: the hangover
  is not armed, no text is kept, the effects and the session state are the given ones, and
  the queue is consistent and holds zero bytes only.
\<close>

definition silent_inv :: "effect list \<Rightarrow> AppState \<Rightarrow> DingoFlowApp \<Rightarrow> bool" where
  "silent_inv E st s =
     (speechHangoverUntilMs s = 0 \<and> rawTranscriptParts s = [] \<and> liveInjectedText s = [] \<and>
      emitted s = E \<and> state s = st \<and> queue_inv (audio s) \<and>
      list_all (\<lambda>b. b = 0) (queued_bytes (pendingAudioQueue (audio s))))"

text \<open>Concrete inputs on which the properties are evaluated.\<close>

definition example_clock :: SliceClock where
  "example_clock = \<lparr>atEntry = 500, nowMs = 500, asrStartedAt = 500, asrFinishedAt = 590,
                      injectStartedAt = 590, injectFinishedAt = 592, atEnd = 592\<rparr>"

definition failed_asr_responses :: SliceResponses where
  "failed_asr_responses =
     \<lparr>clock = example_clock, asrText = None, arrivedDuringAsr = [], injected = Completed\<rparr>"

definition hangover_app :: DingoFlowApp where
  "hangover_app = (newDingoFlowApp DEFAULT_LATENCY_OPTIONS)\<lparr>speechHangoverUntilMs := 1000\<rparr>"

definition example_slice :: PendingAudioSlice where
  "example_slice = \<lparr>slice_data = replicate 3200 0, oldestEnqueuedAtMs = 400\<rparr>"

text \<open>
  A stateful backend whose flush is not skipped, after a first chunk \<open>hello world\<close>, and
  a worker that answers \<open>world today\<close>.
\<close>

definition mlx_options :: DingoFlowLatencyOptions where
  "mlx_options = DEFAULT_LATENCY_OPTIONS\<lparr>asrBackend := ParakeetMlx\<rparr>"

definition hello_world_app :: DingoFlowApp where
  "hello_world_app =
     (newDingoFlowApp mlx_options)
       \<lparr>rawTranscriptParts := [''hello world ''], liveInjectedText := ''hello world ''\<rparr>"

definition world_today_flush :: FlushResponses where
  "world_today_flush = \<lparr>flushStream = Some (Some ''world today''), flushInjected = Completed\<rparr>"

definition world_today_responses :: SliceResponses where
  "world_today_responses =
     \<lparr>clock = example_clock, asrText = Some ''world today'', arrivedDuringAsr = [],
      injected = Completed\<rparr>"

text \<open>
  The trivial flush of the specification: 100 ms of silence arrive, then the key is
  released. The recorder stops, one iteration drains the queue, and the collaborators
  have no text.
\<close>

definition silence_100ms :: "byte list" where
  "silence_100ms = replicate 3200 0"

definition drain_response :: LoopResponses where
  "drain_response =
     \<lparr>takeNow = 500,
      sliceResponses = \<lparr>clock = example_clock, asrText = Some [], arrivedDuringAsr = [],
                        injected = Completed\<rparr>\<rparr>"

definition trivial_flush_events :: "session_event list" where
  "trivial_flush_events = [ChunkArrived 400 silence_100ms, LoopIteration drain_response]"

definition silent_stop :: StopResponses where
  "silent_stop =
     \<lparr>recorderStopped = Completed,
      duringStop = [],
      drainIterations = [drain_response],
      flushResponses = \<lparr>flushStream = Some (Some []), flushInjected = Completed\<rparr>,
      finalPassText = Some [],
      hasReplaceRecentText = True,
      finalReplaced = Completed,
      formattedText = None,
      formatReplaced = Completed\<rparr>"


section \<open>The queue: order and byte count\<close>

lemma copyFromQueue_inv:
  "offsets_ok q \<Longrightarrow>
   copyFromQueue b w out old q p = (out', old', q', p') \<Longrightarrow>
   offsets_ok q' \<and> (\<exists>t. out' = out @ t \<and> queued_bytes q = t @ queued_bytes q' \<and>
      pending_sum q' = pending_sum q - int (length t) \<and> p' = p - int (length t) \<and>
      (w \<le> b \<and> b - w \<le> pending_sum q \<longrightarrow> int (length t) = b - w))"
proof (induction b w out old q p rule: copyFromQueue.induct)
  case (1 byteCount writeOffset outp oldest q pending)
  show ?case
  proof (cases "writeOffset < byteCount")
    case False
    with "1.prems" show ?thesis by (simp add: copyFromQueue.simps)
  next
    case True
    show ?thesis
    proof (cases q)
      case Nil
      with True "1.prems" show ?thesis by (simp add: copyFromQueue.simps pending_sum_def)
    next
      case (Cons head rest)
      define toCopy where "toCopy = min (int (length (data head)) - offset head) (byteCount - writeOffset)"
      define t where "t = take (nat toCopy) (drop (nat (offset head)) (data head))"
      define head' where "head' = head\<lparr>offset := offset head + toCopy\<rparr>"
      define q2 where "q2 = (if offset head' \<ge> int (length (data head')) then rest else head' # rest)"
      have unf: "copyFromQueue byteCount writeOffset outp oldest q pending =
          copyFromQueue byteCount (writeOffset + toCopy) (outp @ t) (min oldest (enqueuedAtMs head)) q2 (pending - toCopy)"
        unfolding toCopy_def t_def head'_def q2_def
        by (subst copyFromQueue.simps) (simp only: True Cons if_True list.case Let_def)
      have rec: "copyFromQueue byteCount (writeOffset + toCopy) (outp @ t) (min oldest (enqueuedAtMs head)) q2 (pending - toCopy) = (out', old', q', p')"
        using "1.prems"(2) unf by simp
      have hd_ok: "0 \<le> offset head" "offset head \<le> int (length (data head))" and rest_ok: "offsets_ok rest"
        using "1.prems"(1) Cons by (simp_all add: offsets_ok_def)
      have tc: "0 \<le> toCopy" "toCopy \<le> int (length (data head)) - offset head"
        using True hd_ok by (simp_all add: toCopy_def)
      have lt: "int (length t) = toCopy"
        using tc hd_ok by (simp add: t_def)
      have q2_ok: "offsets_ok q2"
        using rest_ok hd_ok tc by (simp add: q2_def head'_def offsets_ok_def)
      have drop_eq: "drop (nat (offset head)) (data head) = t @ drop (nat (offset head + toCopy)) (data head)"
      proof -
        have "nat (offset head + toCopy) = nat toCopy + nat (offset head)"
          using tc hd_ok by (simp add: nat_add_distrib)
        then show ?thesis
          unfolding t_def by (metis append_take_drop_id drop_drop)
      qed
      have qb: "queued_bytes q = t @ queued_bytes q2"
        using Cons drop_eq tc hd_ok by (auto simp: queued_bytes_def q2_def head'_def)
      have ps: "pending_sum q2 = pending_sum q - toCopy"
        using Cons tc by (auto simp: pending_sum_def q2_def head'_def)
      from "1.IH" [OF True Cons refl refl refl refl refl refl q2_ok [unfolded q2_def head'_def toCopy_def]
                      rec [unfolded q2_def head'_def toCopy_def t_def]]
      have "offsets_ok q' \<and> (\<exists>t'. out' = (outp @ t) @ t' \<and> queued_bytes q2 = t' @ queued_bytes q' \<and>
              pending_sum q' = pending_sum q2 - int (length t') \<and> p' = (pending - toCopy) - int (length t') \<and>
              (writeOffset + toCopy \<le> byteCount \<and> byteCount - (writeOffset + toCopy) \<le> pending_sum q2 \<longrightarrow>
                 int (length t') = byteCount - (writeOffset + toCopy)))"
        unfolding q2_def head'_def toCopy_def t_def by simp
      then obtain t' where A: "offsets_ok q'" "out' = (outp @ t) @ t'" "queued_bytes q2 = t' @ queued_bytes q'"
         "pending_sum q' = pending_sum q2 - int (length t')" "p' = (pending - toCopy) - int (length t')"
         "writeOffset + toCopy \<le> byteCount \<and> byteCount - (writeOffset + toCopy) \<le> pending_sum q2 \<longrightarrow>
                 int (length t') = byteCount - (writeOffset + toCopy)" by blast
      have tc2: "toCopy \<le> byteCount - writeOffset" by (simp add: toCopy_def)
      show ?thesis
        using A qb ps lt tc2 by (intro conjI exI [of _ "t @ t'"]) auto
    qed
  qed
qed



lemma queue_inv_empty: "queue_inv emptyQueue"
  by (simp add: queue_inv_def emptyQueue_def offsets_ok_def pending_sum_def)

lemma enqueue_inv:
  assumes "queue_inv q"
  shows "queue_inv (enqueueAudioChunk now chunk q)"
    and "queued_bytes (pendingAudioQueue (enqueueAudioChunk now chunk q)) =
         queued_bytes (pendingAudioQueue q) @ chunk"
  using assms
  by (simp_all add: queue_inv_def enqueueAudioChunk_def offsets_ok_def pending_sum_def queued_bytes_def)

lemma read_inv:
  assumes "queue_inv q" and "readPendingAudioSlice now n q = (r, q')"
  shows "queue_inv q'"
    and "queued_bytes (pendingAudioQueue q) =
           (case r of None \<Rightarrow> [] | Some sl \<Rightarrow> slice_data sl) @ queued_bytes (pendingAudioQueue q')"
proof -
  show "queue_inv q'"
  proof (cases "n \<le> 0 \<or> n > pendingAudioBytes q")
    case True
    with assms show ?thesis by (simp add: readPendingAudioSlice_def)
  next
    case False
    obtain out old qq p where c: "copyFromQueue n 0 [] now (pendingAudioQueue q) (pendingAudioBytes q) = (out, old, qq, p)"
      by (cases "copyFromQueue n 0 [] now (pendingAudioQueue q) (pendingAudioBytes q)") auto
    from copyFromQueue_inv [OF _ c] assms(1)
    have "offsets_ok qq" "p = pending_sum qq" by (auto simp: queue_inv_def)
    moreover have "q' = q\<lparr>pendingAudioQueue := qq, pendingAudioBytes := p\<rparr>"
      using assms(2) False c by (simp add: readPendingAudioSlice_def)
    ultimately show ?thesis by (simp add: queue_inv_def)
  qed
  show "queued_bytes (pendingAudioQueue q) =
           (case r of None \<Rightarrow> [] | Some sl \<Rightarrow> slice_data sl) @ queued_bytes (pendingAudioQueue q')"
  proof (cases "n \<le> 0 \<or> n > pendingAudioBytes q")
    case True
    with assms show ?thesis by (auto simp add: readPendingAudioSlice_def)
  next
    case False
    obtain out old qq p where c: "copyFromQueue n 0 [] now (pendingAudioQueue q) (pendingAudioBytes q) = (out, old, qq, p)"
      by (cases "copyFromQueue n 0 [] now (pendingAudioQueue q) (pendingAudioBytes q)") auto
    from copyFromQueue_inv [OF _ c] assms(1)
    have "queued_bytes (pendingAudioQueue q) = out @ queued_bytes qq" by (auto simp: queue_inv_def)
    moreover have "q' = q\<lparr>pendingAudioQueue := qq, pendingAudioBytes := p\<rparr>" "r = Some \<lparr>slice_data = out, oldestEnqueuedAtMs = old\<rparr>"
      using assms(2) False c by (auto simp add: readPendingAudioSlice_def)
    ultimately show ?thesis by simp
  qed
qed

lemma run_ops_inv:
  "queue_inv q \<Longrightarrow> run_ops ops q taken = (q', taken') \<Longrightarrow>
   queue_inv q' \<and>
   concat taken' @ queued_bytes (pendingAudioQueue q') =
     concat taken @ queued_bytes (pendingAudioQueue q) @ enqueued_bytes ops"
proof (induction ops q taken rule: run_ops.induct)
  case (1 q taken)
  then show ?case by simp
next
  case (2 now chunk ops q taken)
  from "2.IH" [OF enqueue_inv(1) [OF "2.prems"(1)]] "2.prems"(2)
  show ?case by (simp add: enqueue_inv(2) [OF "2.prems"(1)])
next
  case (3 now n ops q taken)
  obtain r q1 where rd: "readPendingAudioSlice now n q = (r, q1)"
    by (cases "readPendingAudioSlice now n q") auto
  note inv1 = read_inv [OF "3.prems"(1) rd]
  show ?case
  proof (cases r)
    case None
    from "3.IH"(1) [OF rd [symmetric] None inv1(1)] "3.prems"(2) rd None inv1(2)
    show ?thesis by simp
  next
    case (Some sl)
    from "3.IH"(2) [OF rd [symmetric] Some inv1(1)] "3.prems"(2) rd Some inv1(2)
    show ?thesis by simp
  qed
qed

text \<open>
  Claim C4. For every sequence of enqueue and take operations on the queue of a new
  session, the bytes that the takes returned, concatenated in the order of the takes, are a
  prefix of the bytes that were enqueued, concatenated in the order of the enqueues. So the
  bytes come out in the order they went in and none comes out twice. A take is a call of
  \<open>readPendingAudioSlice\<close> with any byte count, also one it refuses.
\<close>

theorem taken_bytes_prefix_of_enqueued:
  "prefix (concat (snd (run_ops ops emptyQueue []))) (enqueued_bytes ops)"
proof -
  obtain q' taken' where r: "run_ops ops emptyQueue [] = (q', taken')"
    by (cases "run_ops ops emptyQueue []") auto
  from run_ops_inv [OF queue_inv_empty r]
  have "concat taken' @ queued_bytes (pendingAudioQueue q') = enqueued_bytes ops"
    by (simp add: emptyQueue_def queued_bytes_def)
  then show ?thesis using r by (metis prefixI snd_conv)
qed

text \<open>
  Claim C5. After every sequence of enqueue and take operations on the queue of a new
  session, and so at every step of such a sequence, the pending-byte counter is the sum
  over the queued chunks of the length of the chunk minus its read offset.
\<close>

theorem pending_bytes_is_sum:
  "pendingAudioBytes (fst (run_ops ops emptyQueue [])) =
   pending_sum (pendingAudioQueue (fst (run_ops ops emptyQueue [])))"
proof -
  obtain q' taken' where r: "run_ops ops emptyQueue [] = (q', taken')"
    by (cases "run_ops ops emptyQueue []") auto
  from run_ops_inv [OF queue_inv_empty r] show ?thesis
    using r by (simp add: queue_inv_def)
qed


section \<open>The adaptive window\<close>

lemma clamp_between: "lo \<le> hi \<Longrightarrow> lo \<le> clamp v lo hi \<and> clamp v lo hi \<le> hi"
  by (simp add: clamp_def)

lemma updateAdaptiveWindow_in_range:
  assumes "minAsrWindowMs options \<le> maxAsrWindowMs options" and "window_in_range options s"
  shows "window_in_range options (updateAdaptiveWindow options a e p s)"
  using assms clamp_between [OF assms(1)]
  by (simp add: updateAdaptiveWindow_def window_in_range_def Let_def)

lemma run_updates_in_range:
  "minAsrWindowMs options \<le> maxAsrWindowMs options \<Longrightarrow> window_in_range options s \<Longrightarrow>
   window_in_range options (run_updates options ups s)"
  by (induction options ups s rule: run_updates.induct) (simp_all add: updateAdaptiveWindow_in_range)

text \<open>
  Claim C6. If the configured windows satisfy \<open>minAsrWindowMs \<le> normalAsrWindowMs \<le>
  maxAsrWindowMs\<close>, then \<open>dynamicNormalAsrWindowMs\<close> lies between \<open>minAsrWindowMs\<close> and
  \<open>maxAsrWindowMs\<close> after the constructor, after \<open>startRecording\<close>, and after every
  sequence of calls of \<open>updateAdaptiveWindow\<close> that follows either, whatever the values
  of \<open>audioMs\<close>, \<open>asrElapsedMs\<close> and \<open>pendingMs\<close>.
\<close>

theorem adaptive_window_stays_in_bounds:
  assumes "minAsrWindowMs options \<le> normalAsrWindowMs options"
      and "normalAsrWindowMs options \<le> maxAsrWindowMs options"
  shows "window_in_range options (run_updates options ups (newDingoFlowApp options)) \<and>
         window_in_range options (run_updates options ups (snd (startRecording options started s)))"
proof -
  have mm: "minAsrWindowMs options \<le> maxAsrWindowMs options" using assms by simp
  have a: "window_in_range options (newDingoFlowApp options)"
    using assms by (simp add: window_in_range_def newDingoFlowApp_def)
  have b: "window_in_range options (snd (startRecording options started s))"
    using assms by (cases started) (simp_all add: window_in_range_def startRecording_def setState_def)
  show ?thesis using run_updates_in_range [OF mm a] run_updates_in_range [OF mm b] by simp
qed

text \<open>
  With the default options, a backlogged update and then a fast one on an empty queue
  leave the window at 228 ms.
\<close>

theorem adaptive_window_stays_in_bounds_witness:
  "minAsrWindowMs DEFAULT_LATENCY_OPTIONS \<le> normalAsrWindowMs DEFAULT_LATENCY_OPTIONS \<and>
   normalAsrWindowMs DEFAULT_LATENCY_OPTIONS \<le> maxAsrWindowMs DEFAULT_LATENCY_OPTIONS \<and>
   dynamicNormalAsrWindowMs (run_updates DEFAULT_LATENCY_OPTIONS [(180, 400, 5000), (180, 20, 0)]
       (newDingoFlowApp DEFAULT_LATENCY_OPTIONS)) = 228 \<and>
   window_in_range DEFAULT_LATENCY_OPTIONS
     (run_updates DEFAULT_LATENCY_OPTIONS [(180, 400, 5000), (180, 20, 0)]
       (newDingoFlowApp DEFAULT_LATENCY_OPTIONS))"
proof -
  have h1: "minAsrWindowMs DEFAULT_LATENCY_OPTIONS \<le> normalAsrWindowMs DEFAULT_LATENCY_OPTIONS"
    and h2: "normalAsrWindowMs DEFAULT_LATENCY_OPTIONS \<le> maxAsrWindowMs DEFAULT_LATENCY_OPTIONS"
    by (simp_all add: DEFAULT_LATENCY_OPTIONS_def)
  have v: "dynamicNormalAsrWindowMs (run_updates DEFAULT_LATENCY_OPTIONS [(180, 400, 5000), (180, 20, 0)]
       (newDingoFlowApp DEFAULT_LATENCY_OPTIONS)) = 228"
    by (simp add: DEFAULT_LATENCY_OPTIONS_def newDingoFlowApp_def updateAdaptiveWindow_def clamp_def Let_def)
  from adaptive_window_stays_in_bounds [OF h1 h2, of "[(180, 400, 5000), (180, 20, 0)]"] h1 h2 v
  show ?thesis by simp
qed

section \<open>The level of silence\<close>

lemma samples_silence: "list_all (\<lambda>b. b = 0) d \<Longrightarrow> list_all (\<lambda>x. x = 0) (samples d)"
  by (induction d rule: samples.induct) (simp_all add: readInt16LE_def)

lemma estimateDbfs_silence:
  assumes "list_all (\<lambda>b. b = 0) d"
  shows "estimateDbfs d = - 120"
proof -
  have z: "list_all (\<lambda>x. x = 0) xs \<Longrightarrow> sum_list (map (\<lambda>sample. sample * sample) xs) = 0"
    for xs :: "real list"
    by (induction xs) simp_all
  have "sum_list (map (\<lambda>sample. sample * sample) (samples d)) = 0"
    by (rule z [OF samples_silence [OF assms]])
  then show ?thesis by (simp add: estimateDbfs_def Let_def)
qed

lemma estimateDbfs_example_slice: "estimateDbfs (slice_data example_slice) = - 120"
  by (rule estimateDbfs_silence) (simp add: example_slice_def list_all_iff)


section \<open>A failed ASR request\<close>

lemma fold_onChunk_audio_only:
  "\<exists>q. fold (\<lambda>(now, chunk). onChunk now chunk) xs s = s\<lparr>audio := q\<rparr>"
proof (induction xs arbitrary: s)
  case Nil
  have "s = s\<lparr>audio := audio s\<rparr>" by simp
  then show ?case by (metis fold_simps(1))
next
  case (Cons x xs)
  obtain now chunk where x: "x = (now, chunk)" by (cases x)
  obtain q1 where q1: "onChunk now chunk s = s\<lparr>audio := q1\<rparr>"
    by (cases "\<not> acceptingAudio s \<or> length chunk = 0") (auto simp: onChunk_def intro: that [of "audio s"])
  from Cons [of "s\<lparr>audio := q1\<rparr>"] obtain q where
    "fold (\<lambda>(now, chunk). onChunk now chunk) xs (s\<lparr>audio := q1\<rparr>) = s\<lparr>audio := q1\<rparr>\<lparr>audio := q\<rparr>" by blast
  then show ?case using x q1 by (intro exI [of _ q]) simp
qed

lemma fold_onChunk_fields:
  "rawTranscriptParts (fold (\<lambda>(now, chunk). onChunk now chunk) xs s) = rawTranscriptParts s"
  "liveInjectedText (fold (\<lambda>(now, chunk). onChunk now chunk) xs s) = liveInjectedText s"
  "emitted (fold (\<lambda>(now, chunk). onChunk now chunk) xs s) = emitted s"
  "latencyTracker (fold (\<lambda>(now, chunk). onChunk now chunk) xs s) = latencyTracker s"
  "state (fold (\<lambda>(now, chunk). onChunk now chunk) xs s) = state s"
  "ewmaAsrRtf (fold (\<lambda>(now, chunk). onChunk now chunk) xs s) = ewmaAsrRtf s"
  "ewmaAsrMs (fold (\<lambda>(now, chunk). onChunk now chunk) xs s) = ewmaAsrMs s"
  "dynamicNormalAsrWindowMs (fold (\<lambda>(now, chunk). onChunk now chunk) xs s) = dynamicNormalAsrWindowMs s"
  "speechHangoverUntilMs (fold (\<lambda>(now, chunk). onChunk now chunk) xs s) = speechHangoverUntilMs s"
  "recordingActive (fold (\<lambda>(now, chunk). onChunk now chunk) xs s) = recordingActive s"
  "acceptingAudio (fold (\<lambda>(now, chunk). onChunk now chunk) xs s) = acceptingAudio s"
proof -
  obtain q where "fold (\<lambda>(now, chunk). onChunk now chunk) xs s = s\<lparr>audio := q\<rparr>"
    using fold_onChunk_audio_only by blast
  then show
    "rawTranscriptParts (fold (\<lambda>(now, chunk). onChunk now chunk) xs s) = rawTranscriptParts s"
    "liveInjectedText (fold (\<lambda>(now, chunk). onChunk now chunk) xs s) = liveInjectedText s"
    "emitted (fold (\<lambda>(now, chunk). onChunk now chunk) xs s) = emitted s"
    "latencyTracker (fold (\<lambda>(now, chunk). onChunk now chunk) xs s) = latencyTracker s"
    "state (fold (\<lambda>(now, chunk). onChunk now chunk) xs s) = state s"
    "ewmaAsrRtf (fold (\<lambda>(now, chunk). onChunk now chunk) xs s) = ewmaAsrRtf s"
    "ewmaAsrMs (fold (\<lambda>(now, chunk). onChunk now chunk) xs s) = ewmaAsrMs s"
    "dynamicNormalAsrWindowMs (fold (\<lambda>(now, chunk). onChunk now chunk) xs s) = dynamicNormalAsrWindowMs s"
    "speechHangoverUntilMs (fold (\<lambda>(now, chunk). onChunk now chunk) xs s) = speechHangoverUntilMs s"
    "recordingActive (fold (\<lambda>(now, chunk). onChunk now chunk) xs s) = recordingActive s"
    "acceptingAudio (fold (\<lambda>(now, chunk). onChunk now chunk) xs s) = acceptingAudio s"
    by simp_all
qed

lemma updateAdaptiveWindow_fields:
  "rawTranscriptParts (updateAdaptiveWindow options a e p s) = rawTranscriptParts s"
  "liveInjectedText (updateAdaptiveWindow options a e p s) = liveInjectedText s"
  "emitted (updateAdaptiveWindow options a e p s) = emitted s"
  "latencyTracker (updateAdaptiveWindow options a e p s) = latencyTracker s"
  "state (updateAdaptiveWindow options a e p s) = state s"
  "audio (updateAdaptiveWindow options a e p s) = audio s"
  "speechHangoverUntilMs (updateAdaptiveWindow options a e p s) = speechHangoverUntilMs s"
  "recordingActive (updateAdaptiveWindow options a e p s) = recordingActive s"
  "acceptingAudio (updateAdaptiveWindow options a e p s) = acceptingAudio s"
  "ewmaAsrRtf (updateAdaptiveWindow options a e p s) = ewmaAsrRtf s * (1 - 0.18) + e / max a 1 * 0.18"
  "ewmaAsrMs (updateAdaptiveWindow options a e p s) = ewmaAsrMs s * (1 - 0.18) + e * 0.18"
  by (simp_all add: updateAdaptiveWindow_def Let_def)

text \<open>
  Claim C7. When the ASR request for a slice fails (the slice passed the speech gate, so
  the request was made), \<open>processAudioSlice\<close> returns normally and leaves the transcript
  parts, the injected text, the effects (no call of the injector, no event), the latency
  samples and the session state as they were, while \<open>ewmaAsrRtf\<close> becomes
  \<open>(1 - 0.18) * ewmaAsrRtf + 0.18 * (asrElapsedMs / max audioMs 1)\<close> and \<open>ewmaAsrMs\<close>
  becomes \<open>(1 - 0.18) * ewmaAsrMs + 0.18 * asrElapsedMs\<close>: the values they take when the
  request succeeds with any text \<open>t\<close>.
\<close>

theorem asr_failure_drops_slice_but_updates_ewma:
  assumes "estimateDbfs (slice_data audioSlice) \<ge> silenceGateDbfs options \<or>
           \<not> nowMs (clock r) > speechHangoverUntilMs s"
      and "asrText r = None"
  shows "fst (processAudioSlice options r audioSlice s) = Completed \<and>
         rawTranscriptParts (snd (processAudioSlice options r audioSlice s)) = rawTranscriptParts s \<and>
         liveInjectedText (snd (processAudioSlice options r audioSlice s)) = liveInjectedText s \<and>
         emitted (snd (processAudioSlice options r audioSlice s)) = emitted s \<and>
         latencyTracker (snd (processAudioSlice options r audioSlice s)) = latencyTracker s \<and>
         state (snd (processAudioSlice options r audioSlice s)) = state s \<and>
         ewmaAsrRtf (snd (processAudioSlice options r audioSlice s)) =
           (1 - 0.18) * ewmaAsrRtf s +
           0.18 * ((asrFinishedAt (clock r) - asrStartedAt (clock r)) /
                   max (bytesToMs (int (length (slice_data audioSlice)))) 1) \<and>
         ewmaAsrMs (snd (processAudioSlice options r audioSlice s)) =
           (1 - 0.18) * ewmaAsrMs s + 0.18 * (asrFinishedAt (clock r) - asrStartedAt (clock r)) \<and>
         ewmaAsrRtf (snd (processAudioSlice options (r\<lparr>asrText := Some t\<rparr>) audioSlice s)) =
           ewmaAsrRtf (snd (processAudioSlice options r audioSlice s)) \<and>
         ewmaAsrMs (snd (processAudioSlice options (r\<lparr>asrText := Some t\<rparr>) audioSlice s)) =
           ewmaAsrMs (snd (processAudioSlice options r audioSlice s))"
proof -
  have gate: "\<not> (\<not> estimateDbfs (slice_data audioSlice) \<ge> silenceGateDbfs options \<and>
                  nowMs (clock r) > speechHangoverUntilMs s)"
    using assms(1) by auto
  have p1: "fst (processAudioSlice options r audioSlice s) = Completed"
    using gate assms(2) by (auto simp add: processAudioSlice_def Let_def)
  have p2: "rawTranscriptParts (snd (processAudioSlice options r audioSlice s)) = rawTranscriptParts s"
           "liveInjectedText (snd (processAudioSlice options r audioSlice s)) = liveInjectedText s"
           "emitted (snd (processAudioSlice options r audioSlice s)) = emitted s"
           "latencyTracker (snd (processAudioSlice options r audioSlice s)) = latencyTracker s"
           "state (snd (processAudioSlice options r audioSlice s)) = state s"
    using gate assms(2)
    by (auto simp add: processAudioSlice_def Let_def updateAdaptiveWindow_fields fold_onChunk_fields)
  have p3: "ewmaAsrRtf (snd (processAudioSlice options r' audioSlice s)) =
              ewmaAsrRtf s * (1 - 0.18) +
              (asrFinishedAt (clock r) - asrStartedAt (clock r)) /
                 max (bytesToMs (int (length (slice_data audioSlice)))) 1 * 0.18 \<and>
            ewmaAsrMs (snd (processAudioSlice options r' audioSlice s)) =
              ewmaAsrMs s * (1 - 0.18) + (asrFinishedAt (clock r) - asrStartedAt (clock r)) * 0.18"
    if "clock r' = clock r" for r'
    using gate that
    by (auto simp add: processAudioSlice_def Let_def updateAdaptiveWindow_fields fold_onChunk_fields
             split: option.splits completion.splits)
  show ?thesis
    using p1 p2 p3 [of r] p3 [of "r\<lparr>asrText := Some t\<rparr>"] by (simp add: mult.commute)
qed


lemma bytesToMs_3200: "bytesToMs 3200 = 100"
  by (simp add: bytesToMs_def AUDIO_SAMPLE_RATE_def)

text \<open>
  A slice of 100 ms inside the hangover whose request takes 90 ms and fails: nothing is
  emitted, and the averages move from 1 and 0 to 0.982 and 16.2.
\<close>

theorem asr_failure_drops_slice_but_updates_ewma_witness:
  "(estimateDbfs (slice_data example_slice) \<ge> silenceGateDbfs DEFAULT_LATENCY_OPTIONS \<or>
     \<not> nowMs (clock failed_asr_responses) > speechHangoverUntilMs hangover_app) \<and>
   asrText failed_asr_responses = None \<and>
   emitted (snd (processAudioSlice DEFAULT_LATENCY_OPTIONS failed_asr_responses example_slice hangover_app)) = [] \<and>
   ewmaAsrRtf (snd (processAudioSlice DEFAULT_LATENCY_OPTIONS failed_asr_responses example_slice hangover_app)) = 0.982 \<and>
   ewmaAsrMs (snd (processAudioSlice DEFAULT_LATENCY_OPTIONS failed_asr_responses example_slice hangover_app)) = 16.2"
proof -
  have h1: "estimateDbfs (slice_data example_slice) \<ge> silenceGateDbfs DEFAULT_LATENCY_OPTIONS \<or>
     \<not> nowMs (clock failed_asr_responses) > speechHangoverUntilMs hangover_app"
    by (simp add: failed_asr_responses_def example_clock_def hangover_app_def)
  have h2: "asrText failed_asr_responses = None"
    by (simp add: failed_asr_responses_def)
  from asr_failure_drops_slice_but_updates_ewma [OF h1 h2]
  show ?thesis
    using h1 h2
    by (simp add: failed_asr_responses_def example_clock_def hangover_app_def example_slice_def
                  newDingoFlowApp_def bytesToMs_3200)
qed


section \<open>The spoken-punctuation rewriter on the example of the specification\<close>

text \<open>
  Claim C8, amended. \<open>transform\<close> turns \<open>hello comma world full stop new line next\<close>
  into \<open>hello, world.\<close>, a newline and \<open>next\<close>, and counts three applied commands, one
  for each of the three phrases that match.
\<close>

theorem spoken_punctuation_example:
  "transform ''hello comma world full stop new line next'' =
     \<lparr>result_text = ''hello, world.'' @ [newline] @ ''next'', appliedCommands = 3\<rparr>"
  by code_simp

text \<open>The count is not the four of the claim as stated.\<close>

theorem spoken_punctuation_not_four_commands:
  "appliedCommands (transform ''hello comma world full stop new line next'') \<noteq> 4"
  by code_simp


section \<open>The overlap deduper applied twice\<close>

lemma joinWords_append:
  "ws1 \<noteq> [] \<Longrightarrow> ws2 \<noteq> [] \<Longrightarrow> joinWords (ws1 @ ws2) = joinWords ws1 @ CHR '' '' # joinWords ws2"
proof (induction ws1 rule: joinWords.induct)
  case 1
  then show ?case by simp
next
  case (2 w)
  then show ?case by (cases ws2) simp_all
next
  case (3 w v ws)
  then show ?case by simp
qed

lemma joinWords_drop_shorter:
  assumes "0 < k" and "k < length ws"
  shows "length (joinWords (drop k ws)) < length (joinWords ws)"
proof -
  have "joinWords (take k ws @ drop k ws) = joinWords (take k ws) @ CHR '' '' # joinWords (drop k ws)"
    using assms by (intro joinWords_append) auto
  then show ?thesis by simp
qed

lemma splitWhitespace_not_Nil: "splitWhitespace cur s \<noteq> []"
  by (induction cur s rule: splitWhitespace.induct) simp_all

lemma joinWords_Cons: "ws \<noteq> [] \<Longrightarrow> joinWords (w # ws) = w @ CHR '' '' # joinWords ws"
  by (cases ws) simp_all

lemma length_joinWords_split:
  "length (joinWords (splitWhitespace cur s)) \<le> length cur + length s"
proof (induction cur s rule: splitWhitespace.induct)
  case (1 cur)
  then show ?case by simp
next
  case (2 cur c cs)
  show ?case
  proof (cases "isWhiteSpace c")
    case True
    have "length (joinWords (splitWhitespace [] (dropWhile isWhiteSpace cs))) \<le> length (dropWhile isWhiteSpace cs)"
      using "2.IH"(1) [OF True] by simp
    also have "\<dots> \<le> length cs" by (rule length_dropWhile_le)
    finally show ?thesis using True by (simp add: joinWords_Cons splitWhitespace_not_Nil)
  next
    case False
    then show ?thesis using "2.IH"(2) [OF False] by simp
  qed
qed

lemma tailHeadOverlap_le: "tailHeadOverlap e n k \<le> k"
  by (induction k) (simp_all add: le_SucI)

lemma floatingOverlap_le: "floatingOverlap e n ss k \<le> k"
  by (induction k) (simp_all add: le_SucI)

lemma overlapWords_le: "overlapWords existingWords nextWords \<le> length nextWords"
proof -
  have a: "tailHeadOverlap e n (min (length existingWords) (min (length nextWords) 20)) \<le> length nextWords" for e n
    using tailHeadOverlap_le [of e n "min (length existingWords) (min (length nextWords) 20)"] by simp
  have b: "floatingOverlap e n ss (min (length nextWords) (min 16 (min (length existingWords) 28))) \<le> length nextWords" for e n ss
    using floatingOverlap_le [of e n ss "min (length nextWords) (min 16 (min (length existingWords) 28))"] by simp
  show ?thesis using a b by (simp add: overlapWords_def Let_def)
qed

lemma length_trim_le: "length (trim x) \<le> length x"
proof -
  have "length (trim x) \<le> length (dropWhile isWhiteSpace x)"
    using length_dropWhile_le [of isWhiteSpace "rev (dropWhile isWhiteSpace x)"]
    by (simp add: trim_def trimEnd_def trimStart_def)
  also have "\<dots> \<le> length x" by (rule length_dropWhile_le)
  finally show ?thesis .
qed

lemma length_trim_less:
  assumes "endsWithWhitespace x" and "trim x \<noteq> []"
  shows "length (trim x) < length x"
proof -
  define y where "y = dropWhile isWhiteSpace x"
  have yne: "y \<noteq> []"
  proof
    assume "y = []"
    then have "trim x = []" unfolding trim_def trimEnd_def trimStart_def y_def [symmetric] by simp
    with assms(2) show False by simp
  qed
  obtain p where x: "x = p @ y" unfolding y_def by (metis takeWhile_dropWhile_id)
  have "last y = last x" using x yne by simp
  moreover have "x \<noteq> []" using x yne by simp
  ultimately have "isWhiteSpace (last y)"
    using assms(1) by (cases x rule: rev_cases) (simp_all add: endsWithWhitespace_def)
  then have "isWhiteSpace (hd (rev y))" using yne by (simp add: hd_rev)
  then have "length (dropWhile isWhiteSpace (rev y)) < length (rev y)"
    using yne by (cases "rev y") (simp_all add: length_dropWhile_le less_Suc_eq_le)
  then have "length (trim x) < length y"
    by (simp add: trim_def trimEnd_def trimStart_def y_def)
  also have "\<dots> \<le> length x" unfolding y_def by (rule length_dropWhile_le)
  finally show ?thesis .
qed

lemma dedupe_fixed_iff:
  "(dedupeChunkAgainstLiveTranscript live x = x) = (detectedOverlap live x = 0)"
proof (cases "trim x = [] \<or> trim live = [] \<or> newline \<in> set x \<or> newline \<in> set live")
  case True
  then show ?thesis by (auto simp add: dedupeChunkAgainstLiveTranscript_def detectedOverlap_def)
next
  case False
  define E where "E = splitWhitespace [] (trim live)"
  define N where "N = splitWhitespace [] (trim x)"
  define k where "k = overlapWords E N"
  have d: "detectedOverlap live x = k"
    using False by (simp add: detectedOverlap_def k_def E_def N_def)
  have ne: "E \<noteq> []" "N \<noteq> []" by (simp_all add: E_def N_def splitWhitespace_not_Nil)
  have xne: "x \<noteq> []"
  proof
    assume "x = []"
    then have "trim x = []" by (simp add: trim_def trimEnd_def trimStart_def)
    with False show False by simp
  qed
  show ?thesis
  proof (cases "k = 0")
    case True
    then show ?thesis using False d ne
      by (simp add: dedupeChunkAgainstLiveTranscript_def Let_def k_def E_def N_def)
  next
    case kpos: False
    have kle: "k \<le> length N" unfolding k_def by (rule overlapWords_le)
    have res: "dedupeChunkAgainstLiveTranscript live x =
                 (if drop k N = [] then []
                  else joinWords (drop k N) @ (if endsWithWhitespace x then '' '' else []))"
      using False kpos ne
      by (simp add: dedupeChunkAgainstLiveTranscript_def Let_def k_def E_def N_def)
    have "dedupeChunkAgainstLiveTranscript live x \<noteq> x"
    proof (cases "drop k N = []")
      case True
      then show ?thesis using res xne by simp
    next
      case False
      then have klt: "k < length N" by simp
      have "length (joinWords (drop k N)) < length (joinWords N)"
        using kpos klt by (intro joinWords_drop_shorter) simp_all
      also have "\<dots> \<le> length (trim x)"
        using length_joinWords_split [of "[]" "trim x"] by (simp add: N_def)
      finally have a: "length (joinWords (drop k N)) < length (trim x)" .
      have tne: "trim x \<noteq> []" using a by auto
      have "length (dedupeChunkAgainstLiveTranscript live x) < length x"
      proof (cases "endsWithWhitespace x")
        case True
        from length_trim_less [OF True tne] a res False True show ?thesis by simp
      next
        case nows: False
        from length_trim_le [of x] a res False nows show ?thesis by simp
      qed
      then show ?thesis by auto
    qed
    then show ?thesis using d kpos by simp
  qed
qed

lemma splitWhitespace_tokens:
  "\<forall>c\<in>set cur. \<not> isWhiteSpace c \<Longrightarrow>
   \<forall>w\<in>set (splitWhitespace cur s). \<forall>c\<in>set w. \<not> isWhiteSpace c"
proof (induction cur s rule: splitWhitespace.induct)
  case (1 cur)
  then show ?case by simp
next
  case (2 cur c cs)
  show ?case
  proof (cases "isWhiteSpace c")
    case True
    have "\<forall>w\<in>set (splitWhitespace [] (dropWhile isWhiteSpace cs)). \<forall>c\<in>set w. \<not> isWhiteSpace c"
      by (rule "2.IH"(1) [OF True]) simp
    then show ?thesis using True "2.prems" by simp
  next
    case False
    have "\<forall>c\<in>set (cur @ [c]). \<not> isWhiteSpace c" using False "2.prems" by simp
    from "2.IH"(2) [OF False this] show ?thesis using False by simp
  qed
qed

lemma space_is_whitespace: "isWhiteSpace (CHR '' '')"
  by (simp add: isWhiteSpace_def)

lemma toLowerCaseChar_not_space: "c \<noteq> CHR '' '' \<Longrightarrow> toLowerCaseChar c \<noteq> CHR '' ''"
proof
  assume c: "c \<noteq> CHR '' ''" and eq: "toLowerCaseChar c = CHR '' ''"
  let ?n = "of_char c :: nat"
  show False
  proof (cases "(65 \<le> ?n \<and> ?n \<le> 90) \<or> (192 \<le> ?n \<and> ?n \<le> 222 \<and> ?n \<noteq> 215)")
    case True
    then have "char_of (?n + 32) = CHR '' ''" using eq by (simp add: toLowerCaseChar_def Let_def)
    then have "(of_char (char_of (?n + 32) :: char) :: nat) = of_char (CHR '' '')" by simp
    then have "(?n + 32) mod 256 = 32" by (simp add: of_char_of)
    moreover have "?n + 32 < 256" using True by auto
    ultimately show False using True by simp
  next
    case False
    then have "toLowerCaseChar c = c" by (auto simp add: toLowerCaseChar_def Let_def)
    then show False using c eq by simp
  qed
qed

lemma normalizeWord_no_space:
  assumes "CHR '' '' \<notin> set w"
  shows "CHR '' '' \<notin> set (normalizeWord w)"
proof -
  have a: "CHR '' '' \<notin> set (toLowerCase w)"
  proof
    assume "CHR '' '' \<in> set (toLowerCase w)"
    then obtain c where c: "c \<in> set w" "toLowerCaseChar c = CHR '' ''"
      unfolding toLowerCase_def by (metis imageE list.set_map)
    from c(1) assms have "c \<noteq> CHR '' ''" by blast
    from toLowerCaseChar_not_space [OF this] c(2) show False by simp
  qed
  have "set (normalizeWord w) \<subseteq> set (toLowerCase w)"
  proof
    fix x assume "x \<in> set (normalizeWord w)"
    then have "x \<in> set (dropWhile (\<lambda>c. \<not> isTokenChar c) (rev (dropWhile (\<lambda>c. \<not> isTokenChar c) (toLowerCase w))))"
      by (simp add: normalizeWord_def)
    then have "x \<in> set (rev (dropWhile (\<lambda>c. \<not> isTokenChar c) (toLowerCase w)))"
      by (rule set_dropWhileD)
    then have "x \<in> set (dropWhile (\<lambda>c. \<not> isTokenChar c) (toLowerCase w))" by simp
    then show "x \<in> set (toLowerCase w)" by (rule set_dropWhileD)
  qed
  then show ?thesis using a by auto
qed

lemma append_sep_inject:
  "x \<notin> set a \<Longrightarrow> x \<notin> set b \<Longrightarrow> a @ x # c = b @ x # d \<Longrightarrow> a = b \<and> c = d"
proof (induction a arbitrary: b)
  case Nil
  then show ?case by (cases b) auto
next
  case (Cons y a)
  then show ?case by (cases b) auto
qed

lemma joinWords_inject:
  "length xs = length ys \<Longrightarrow> \<forall>w\<in>set xs. CHR '' '' \<notin> set w \<Longrightarrow>
   \<forall>w\<in>set ys. CHR '' '' \<notin> set w \<Longrightarrow> joinWords xs = joinWords ys \<Longrightarrow> xs = ys"
proof (induction xs ys rule: list_induct2)
  case Nil
  then show ?case by simp
next
  case (Cons x xs y ys)
  show ?case
  proof (cases xs)
    case Nil
    then have "ys = []" using Cons.hyps by simp
    with Nil Cons.prems show ?thesis by simp
  next
    case (Cons x' xs')
    then obtain y' ys' where ys: "ys = y' # ys'" using Cons.hyps by (cases ys) auto
    have "x @ CHR '' '' # joinWords xs = y @ CHR '' '' # joinWords ys"
      using Cons.prems(3) Cons ys by simp
    from append_sep_inject [OF _ _ this] Cons.prems(1,2)
    have "x = y" "joinWords xs = joinWords ys" by auto
    with Cons.IH Cons.prems(1,2) show ?thesis by simp
  qed
qed

lemma tailHeadOverlap_zero_iff:
  "(tailHeadOverlap e n L = 0) =
   (\<forall>j. 1 \<le> j \<and> j \<le> L \<longrightarrow> joinWords (drop (length e - j) e) \<noteq> joinWords (take j n))"
proof (induction L)
  case 0
  then show ?case by simp
next
  case (Suc k)
  show ?case
  proof (cases "joinWords (drop (length e - Suc k) e) = joinWords (take (Suc k) n)")
    case True
    have "\<not> (\<forall>j. 1 \<le> j \<and> j \<le> Suc k \<longrightarrow> joinWords (drop (length e - j) e) \<noteq> joinWords (take j n))"
      using True by (intro notI) (drule spec [of _ "Suc k"], simp)
    then show ?thesis using True by simp
  next
    case False
    have "(\<forall>j. 1 \<le> j \<and> j \<le> Suc k \<longrightarrow> joinWords (drop (length e - j) e) \<noteq> joinWords (take j n)) =
          (\<forall>j. 1 \<le> j \<and> j \<le> k \<longrightarrow> joinWords (drop (length e - j) e) \<noteq> joinWords (take j n))"
      using False by (metis le_Suc_eq)
    then show ?thesis using False Suc.IH by simp
  qed
qed

lemma floatingOverlap_zero_iff:
  "(floatingOverlap e n ss M = 0) = (\<forall>j. 4 \<le> j \<and> j \<le> M \<longrightarrow> \<not> floatingMatchAt e n ss j)"
proof (induction M)
  case 0
  then show ?case by simp
next
  case (Suc k)
  show ?case
  proof (cases "4 \<le> Suc k")
    case small: False
    then have "\<forall>j. 4 \<le> j \<and> j \<le> Suc k \<longrightarrow> \<not> floatingMatchAt e n ss j" by auto
    then show ?thesis using small by simp
  next
    case big: True
    show ?thesis
    proof (cases "floatingMatchAt e n ss (Suc k)")
      case True
      have "\<not> (\<forall>j. 4 \<le> j \<and> j \<le> Suc k \<longrightarrow> \<not> floatingMatchAt e n ss j)"
        using True big by (intro notI) (drule spec [of _ "Suc k"], simp)
      then show ?thesis using True big by simp
    next
      case False
      have "(\<forall>j. 4 \<le> j \<and> j \<le> Suc k \<longrightarrow> \<not> floatingMatchAt e n ss j) =
            (\<forall>j. 4 \<le> j \<and> j \<le> k \<longrightarrow> \<not> floatingMatchAt e n ss j)"
        using False by (metis le_Suc_eq)
      then show ?thesis using False big Suc.IH by simp
    qed
  qed
qed

lemma floatingMatchAt_iff:
  "floatingMatchAt e n ss j =
   (\<exists>start::int. max ss (int (length e) - int j - 6) \<le> start \<and> start \<le> int (length e) - int j \<and>
      joinWords (take j (drop (nat start) e)) = joinWords (take j n))"
  unfolding floatingMatchAt_def Let_def list_ex_iff by auto

lemma tailHead_zero_iff_no_match:
  assumes "\<forall>w\<in>set e. CHR '' '' \<notin> set w" and "\<forall>w\<in>set n. CHR '' '' \<notin> set w"
  shows "(tailHeadOverlap e n (min (length e) (min (length n) 20)) = 0) = (\<not> tailHeadMatch e n)"
proof -
  let ?L = "min (length e) (min (length n) 20)"
  have eq: "(joinWords (drop (length e - j) e) = joinWords (take j n)) =
            (drop (length e - j) e = take j n)" if "1 \<le> j" "j \<le> ?L" for j
  proof
    assume j: "joinWords (drop (length e - j) e) = joinWords (take j n)"
    have len: "length (drop (length e - j) e) = length (take j n)" using that by simp
    have a: "\<forall>w\<in>set (drop (length e - j) e). CHR '' '' \<notin> set w"
      using assms(1) by (meson in_set_dropD)
    have b: "\<forall>w\<in>set (take j n). CHR '' '' \<notin> set w"
      using assms(2) by (meson in_set_takeD)
    show "drop (length e - j) e = take j n" by (rule joinWords_inject [OF len a b j])
  next
    assume "drop (length e - j) e = take j n"
    then show "joinWords (drop (length e - j) e) = joinWords (take j n)" by simp
  qed
  have "(tailHeadOverlap e n ?L = 0) =
        (\<forall>j. 1 \<le> j \<and> j \<le> ?L \<longrightarrow> drop (length e - j) e \<noteq> take j n)"
    unfolding tailHeadOverlap_zero_iff using eq by blast
  also have "\<dots> = (\<not> tailHeadMatch e n)"
    unfolding tailHeadMatch_def Bex_def set_upt atLeastLessThan_iff less_Suc_eq_le by blast
  finally show ?thesis .
qed

lemma floating_zero_iff_no_match:
  assumes "\<forall>w\<in>set e. CHR '' '' \<notin> set w" and "\<forall>w\<in>set n. CHR '' '' \<notin> set w"
  shows "(floatingOverlap e n (int (length e) - int (min (length e) 28))
            (min (length n) (min 16 (min (length e) 28))) = 0) =
         (\<not> floatingMatch e n)"
proof -
  let ?M = "min (length n) (min 16 (min (length e) 28))"
  let ?ss = "int (length e) - int (min (length e) 28)"
  have at: "floatingMatchAt e n ?ss j =
            (\<exists>start. length e - j - 6 \<le> start \<and> start \<le> length e - j \<and>
                     take j (drop start e) = take j n)"
    if j: "4 \<le> j" "j \<le> ?M" for j
  proof
    assume "floatingMatchAt e n ?ss j"
    then obtain start :: int where s: "max ?ss (int (length e) - int j - 6) \<le> start"
       "start \<le> int (length e) - int j"
       "joinWords (take j (drop (nat start) e)) = joinWords (take j n)"
      unfolding floatingMatchAt_iff by blast
    have "0 \<le> ?ss" by (simp add: min_def)
    moreover have "?ss \<le> start" using s(1) by simp
    ultimately have pos: "0 \<le> start" by linarith
    have b1: "length e - j - 6 \<le> nat start" using s(1) pos by auto
    have b2: "nat start \<le> length e - j" using s(2) pos j by auto
    have len: "length (take j (drop (nat start) e)) = length (take j n)" using b2 j by auto
    have a: "\<forall>w\<in>set (take j (drop (nat start) e)). CHR '' '' \<notin> set w"
      using assms(1) by (meson in_set_dropD in_set_takeD)
    have b: "\<forall>w\<in>set (take j n). CHR '' '' \<notin> set w"
      using assms(2) by (meson in_set_takeD)
    have "take j (drop (nat start) e) = take j n" by (rule joinWords_inject [OF len a b s(3)])
    with b1 b2 show "\<exists>start. length e - j - 6 \<le> start \<and> start \<le> length e - j \<and>
                     take j (drop start e) = take j n" by blast
  next
    assume "\<exists>start. length e - j - 6 \<le> start \<and> start \<le> length e - j \<and>
                     take j (drop start e) = take j n"
    then obtain start where s: "length e - j - 6 \<le> start" "start \<le> length e - j"
       "take j (drop start e) = take j n" by blast
    have "j \<le> 16" using j(2) by simp
    then have c1: "max ?ss (int (length e) - int j - 6) \<le> int start" using s(1) by (auto simp add: min_def)
    have c2: "int start \<le> int (length e) - int j" using s(2) j by auto
    have c3: "joinWords (take j (drop (nat (int start)) e)) = joinWords (take j n)" using s(3) by simp
    show "floatingMatchAt e n ?ss j"
      unfolding floatingMatchAt_iff using c1 c2 c3 by blast
  qed
  have "(floatingOverlap e n ?ss ?M = 0) =
        (\<forall>j. 4 \<le> j \<and> j \<le> ?M \<longrightarrow>
           \<not> (\<exists>start. length e - j - 6 \<le> start \<and> start \<le> length e - j \<and>
                     take j (drop start e) = take j n))"
    unfolding floatingOverlap_zero_iff using at by blast
  also have "\<dots> = (\<not> floatingMatch e n)"
    unfolding floatingMatch_def Bex_def set_upt atLeastLessThan_iff less_Suc_eq_le by blast
  finally show ?thesis .
qed

lemma floatingMatch_needs_four: "floatingMatch e n \<Longrightarrow> 4 \<le> length n"
  unfolding floatingMatch_def Bex_def set_upt atLeastLessThan_iff less_Suc_eq_le by auto

lemma overlapWords_zero_iff:
  assumes "\<forall>w\<in>set E. CHR '' '' \<notin> set w" and "\<forall>w\<in>set N. CHR '' '' \<notin> set w"
  shows "(overlapWords E N = 0) =
         (\<not> furtherOverlap (map normalizeWord E) (map normalizeWord N))"
proof -
  let ?e = "map normalizeWord E" and ?n = "map normalizeWord N"
  have e: "\<forall>w\<in>set ?e. CHR '' '' \<notin> set w" using assms(1) normalizeWord_no_space by auto
  have n: "\<forall>w\<in>set ?n. CHR '' '' \<notin> set w" using assms(2) normalizeWord_no_space by auto
  note th = tailHead_zero_iff_no_match [OF e n, simplified]
  note fl = floating_zero_iff_no_match [OF e n, simplified]
  show ?thesis
  proof (cases "4 \<le> length N")
    case True
    then show ?thesis using th fl by (auto simp add: overlapWords_def Let_def furtherOverlap_def)
  next
    case False
    then have "\<not> floatingMatch ?e ?n" using floatingMatch_needs_four [of ?e ?n] by auto
    then show ?thesis using th False by (auto simp add: overlapWords_def Let_def furtherOverlap_def)
  qed
qed

lemma splitWhitespace_nonempty:
  "s = [] \<or> \<not> isWhiteSpace (last s) \<Longrightarrow> cur \<noteq> [] \<or> (s \<noteq> [] \<and> \<not> isWhiteSpace (hd s)) \<Longrightarrow>
   \<forall>w\<in>set (splitWhitespace cur s). w \<noteq> []"
proof (induction cur s rule: splitWhitespace.induct)
  case (1 cur)
  then show ?case by simp
next
  case (2 cur c cs)
  have lastc: "\<not> isWhiteSpace (last (c # cs))" using "2.prems"(1) by simp
  show ?case
  proof (cases "isWhiteSpace c")
    case True
    have cur: "cur \<noteq> []" using "2.prems"(2) True by simp
    have csne: "cs \<noteq> []" using lastc True by auto
    then have lcs: "\<not> isWhiteSpace (last cs)" using lastc by simp
    define s' where "s' = dropWhile isWhiteSpace cs"
    have s'ne: "s' \<noteq> []"
    proof
      assume "s' = []"
      then have "\<forall>x\<in>set cs. isWhiteSpace x" by (simp add: s'_def)
      then show False using lcs csne by auto
    qed
    obtain p where cs: "cs = p @ s'" unfolding s'_def by (metis takeWhile_dropWhile_id)
    have l': "\<not> isWhiteSpace (last s')" using cs s'ne lcs by simp
    have h': "\<not> isWhiteSpace (hd s')" using s'ne unfolding s'_def by (metis hd_dropWhile)
    have "\<forall>w\<in>set (splitWhitespace [] s'). w \<noteq> []"
      using "2.IH"(1) [OF True] l' h' s'ne unfolding s'_def by blast
    then show ?thesis using True cur by (simp add: s'_def)
  next
    case False
    have "cs = [] \<or> \<not> isWhiteSpace (last cs)" using lastc by (cases "cs = []") simp_all
    from "2.IH"(2) [OF False this] show ?thesis using False by simp
  qed
qed

lemma trim_edges:
  assumes "trim x \<noteq> []"
  shows "\<not> isWhiteSpace (hd (trim x))" and "\<not> isWhiteSpace (last (trim x))"
proof -
  define y where "y = dropWhile isWhiteSpace x"
  define t where "t = dropWhile isWhiteSpace (rev y)"
  have tr: "trim x = rev t" by (simp add: trim_def trimEnd_def trimStart_def y_def t_def)
  have tne: "t \<noteq> []" using assms tr by simp
  have "\<not> isWhiteSpace (hd t)" using tne unfolding t_def by (metis hd_dropWhile)
  then show "\<not> isWhiteSpace (last (trim x))" using tr tne by (simp add: last_rev)
  obtain p where "rev y = p @ t" unfolding t_def by (metis takeWhile_dropWhile_id)
  then have y: "y = rev t @ rev p" by (metis rev_append rev_rev_ident)
  have yne: "y \<noteq> []" using y tne by simp
  have "\<not> isWhiteSpace (hd y)" using yne unfolding y_def by (metis hd_dropWhile)
  moreover have "hd y = hd (rev t)" using y tne by simp
  ultimately show "\<not> isWhiteSpace (hd (trim x))" using tr by simp
qed

lemma tokens_good:
  assumes "trim x \<noteq> []"
  shows "goodTokens (splitWhitespace [] (trim x))"
proof -
  have a: "\<forall>w\<in>set (splitWhitespace [] (trim x)). w \<noteq> []"
    using splitWhitespace_nonempty [of "trim x" "[]"] trim_edges [OF assms] assms by blast
  have b: "\<forall>w\<in>set (splitWhitespace [] (trim x)). \<forall>c\<in>set w. \<not> isWhiteSpace c"
    by (rule splitWhitespace_tokens) simp
  show ?thesis using a b by (simp add: goodTokens_def)
qed

lemma splitWhitespace_word:
  "\<forall>c\<in>set w. \<not> isWhiteSpace c \<Longrightarrow> splitWhitespace cur (w @ rest) = splitWhitespace (cur @ w) rest"
  by (induction w arbitrary: cur) simp_all

lemma joinWords_starts: "\<exists>t. joinWords (v # ws) = v @ t"
  by (cases ws) simp_all

lemma splitWhitespace_joinWords:
  "ws \<noteq> [] \<Longrightarrow> goodTokens ws \<Longrightarrow> splitWhitespace [] (joinWords ws) = ws"
proof (induction ws rule: joinWords.induct)
  case 1
  then show ?case by simp
next
  case (2 w)
  then have "\<forall>c\<in>set w. \<not> isWhiteSpace c" by (simp add: goodTokens_def)
  from splitWhitespace_word [OF this, of "[]" "[]"] show ?case by simp
next
  case (3 w v ws)
  have w: "\<forall>c\<in>set w. \<not> isWhiteSpace c" and g: "goodTokens (v # ws)" and v: "v \<noteq> []" "\<forall>c\<in>set v. \<not> isWhiteSpace c"
    using "3.prems"(2) by (simp_all add: goodTokens_def)
  obtain t where t: "joinWords (v # ws) = v @ t" using joinWords_starts by blast
  have hd: "\<not> isWhiteSpace (hd (joinWords (v # ws)))" using t v by (cases v) simp_all
  have ne: "joinWords (v # ws) \<noteq> []" using t v by simp
  have dw: "dropWhile isWhiteSpace (joinWords (v # ws)) = joinWords (v # ws)"
    using hd ne by (cases "joinWords (v # ws)") simp_all
  have "splitWhitespace [] (joinWords (w # v # ws)) =
        splitWhitespace w (CHR '' '' # joinWords (v # ws))"
    using splitWhitespace_word [OF w, of "[]" "CHR '' '' # joinWords (v # ws)"] by simp
  also have "\<dots> = w # splitWhitespace [] (joinWords (v # ws))"
    using dw by (simp add: space_is_whitespace)
  also have "\<dots> = w # v # ws" using "3.IH" g by simp
  finally show ?case .
qed

lemma joinWords_edges:
  assumes "ws \<noteq> []" and "goodTokens ws"
  shows "joinWords ws \<noteq> []" and "\<not> isWhiteSpace (hd (joinWords ws))"
    and "\<not> isWhiteSpace (last (joinWords ws))"
proof -
  obtain v vs where ws: "ws = v # vs" using assms(1) by (cases ws) auto
  obtain t where t: "joinWords ws = v @ t" using ws joinWords_starts by blast
  have v: "v \<noteq> []" "\<forall>c\<in>set v. \<not> isWhiteSpace c" using assms(2) ws by (simp_all add: goodTokens_def)
  show "joinWords ws \<noteq> []" using t v by simp
  show "\<not> isWhiteSpace (hd (joinWords ws))" using t v by (cases v) simp_all
  show "\<not> isWhiteSpace (last (joinWords ws))"
    using assms
  proof (induction ws rule: joinWords.induct)
    case 1
    then show ?case by simp
  next
    case (2 w)
    then show ?case by (simp add: goodTokens_def)
  next
    case (3 w v ws)
    have "joinWords (v # ws) \<noteq> []" using "3.prems"(2) joinWords_starts [of v ws]
      by (auto simp add: goodTokens_def)
    then show ?case using 3 by (simp add: goodTokens_def)
  qed
qed

lemma trim_joinWords:
  assumes "ws \<noteq> []" and "goodTokens ws" and "sfx = [] \<or> sfx = '' ''"
  shows "trim (joinWords ws @ sfx) = joinWords ws"
proof -
  let ?J = "joinWords ws"
  note e = joinWords_edges [OF assms(1,2)]
  have s1: "dropWhile isWhiteSpace (?J @ sfx) = ?J @ sfx"
    using e(1,2) by (cases ?J) simp_all
  have l: "\<not> isWhiteSpace (hd (rev ?J))" using e(1,3) by (simp add: hd_rev)
  have r0: "dropWhile isWhiteSpace (rev ?J) = rev ?J"
    using l e(1) by (cases "rev ?J") simp_all
  have "dropWhile isWhiteSpace (rev (?J @ sfx)) = rev ?J"
    using assms(3) r0 by (auto simp add: space_is_whitespace)
  then show ?thesis by (simp add: trim_def trimEnd_def trimStart_def s1)
qed

lemma joinWords_chars:
  "c \<in> set (joinWords ws) \<Longrightarrow> c = CHR '' '' \<or> (\<exists>w\<in>set ws. c \<in> set w)"
  by (induction ws rule: joinWords.induct) auto

lemma goodTokens_no_space: "goodTokens ws \<Longrightarrow> \<forall>w\<in>set ws. CHR '' '' \<notin> set w"
  using space_is_whitespace by (auto simp add: goodTokens_def)

lemma goodTokens_drop: "goodTokens ws \<Longrightarrow> goodTokens (drop k ws)"
  by (auto simp add: goodTokens_def dest: in_set_dropD)

lemma newline_is_whitespace: "isWhiteSpace newline"
  by (simp add: isWhiteSpace_def newline_def)

lemma dedupe_result:
  "dedupeChunkAgainstLiveTranscript live chunk =
     (if passesThrough live chunk \<or> overlapWords (tokenise live) (tokenise chunk) = 0 then chunk
      else if remainingWords live chunk = [] then []
      else joinWords (remainingWords live chunk) @ (if endsWithWhitespace chunk then '' '' else []))"
  by (simp add: dedupeChunkAgainstLiveTranscript_def passesThrough_def tokenise_def
        remainingWords_def Let_def splitWhitespace_not_Nil)

lemma furtherOverlap_shares_word:
  assumes "furtherOverlap e n"
  shows "set e \<inter> set n \<noteq> {}"
proof -
  have share: "set e \<inter> set n \<noteq> {}" if "1 \<le> j" "j \<le> length n" "take j n = take j (drop s e)" for j s
  proof -
    have "n \<noteq> []" using that by auto
    then have "hd n \<in> set (take j n)" using that(1) by (cases n; cases j) auto
    then have "hd n \<in> set (take j (drop s e))" using that(3) by simp
    then have "hd n \<in> set e" by (meson in_set_dropD in_set_takeD)
    moreover have "hd n \<in> set n" using \<open>n \<noteq> []\<close> by simp
    ultimately show ?thesis by auto
  qed
  from assms consider "tailHeadMatch e n" | "floatingMatch e n" unfolding furtherOverlap_def by blast
  then show ?thesis
  proof cases
    case 1
    then obtain j where j: "1 \<le> j" "j \<le> min (length e) (min (length n) 20)"
        "drop (length e - j) e = take j n"
      unfolding tailHeadMatch_def Bex_def set_upt atLeastLessThan_iff less_Suc_eq_le by blast
    have "take j n = take j (drop (length e - j) e)" using j by simp
    from share [OF j(1) _ this] j(2) show ?thesis by simp
  next
    case 2
    then obtain j s where j: "4 \<le> j" "j \<le> min (length n) (min 16 (min (length e) 28))"
        "take j (drop s e) = take j n"
      unfolding floatingMatch_def Bex_def set_upt atLeastLessThan_iff less_Suc_eq_le by blast
    have "1 \<le> j" using j(1) by simp
    from share [OF this _ j(3) [symmetric]] j(2) show ?thesis by simp
  qed
qed

lemma dedupe_twice_iff:
  "(dedupeChunkAgainstLiveTranscript live (dedupeChunkAgainstLiveTranscript live chunk) =
      dedupeChunkAgainstLiveTranscript live chunk) =
   (passesThrough live chunk \<or> overlapWords (tokenise live) (tokenise chunk) = 0 \<or>
    remainingWords live chunk = [] \<or>
    \<not> furtherOverlap (map normalizeWord (tokenise live))
                      (map normalizeWord (remainingWords live chunk)))"
proof (cases "passesThrough live chunk \<or> overlapWords (tokenise live) (tokenise chunk) = 0")
  case True
  then have "dedupeChunkAgainstLiveTranscript live chunk = chunk" by (simp add: dedupe_result)
  then show ?thesis using True by auto
next
  case False
  show ?thesis
  proof (cases "remainingWords live chunk = []")
    case True
    then have r: "dedupeChunkAgainstLiveTranscript live chunk = []" using False by (simp add: dedupe_result)
    have "dedupeChunkAgainstLiveTranscript live [] = []"
      by (simp add: dedupeChunkAgainstLiveTranscript_def trim_def trimEnd_def trimStart_def)
    then show ?thesis using r True by simp
  next
    case ne: False
    define R where "R = remainingWords live chunk"
    define sfx where "sfx = (if endsWithWhitespace chunk then '' '' else [])"
    define r where "r = joinWords R @ sfx"
    have res: "dedupeChunkAgainstLiveTranscript live chunk = r"
      using False ne by (simp add: dedupe_result r_def R_def sfx_def)
    have guards: "trim chunk \<noteq> []" "trim live \<noteq> []" "newline \<notin> set chunk" "newline \<notin> set live"
      using False by (auto simp add: passesThrough_def)
    have gN: "goodTokens (tokenise chunk)" unfolding tokenise_def by (rule tokens_good [OF guards(1)])
    have gE: "goodTokens (tokenise live)" unfolding tokenise_def by (rule tokens_good [OF guards(2)])
    have gR: "goodTokens R" unfolding R_def remainingWords_def by (rule goodTokens_drop [OF gN])
    have Rne: "R \<noteq> []" using ne by (simp add: R_def)
    have sfx: "sfx = [] \<or> sfx = '' ''" by (simp add: sfx_def)
    have tr: "trim r = joinWords R" unfolding r_def by (rule trim_joinWords [OF Rne gR sfx])
    have trne: "trim r \<noteq> []" using tr joinWords_edges(1) [OF Rne gR] by simp
    have tok: "splitWhitespace [] (trim r) = R"
      using tr splitWhitespace_joinWords [OF Rne gR] by simp
    have nl: "newline \<notin> set r"
    proof
      assume "newline \<in> set r"
      then have "newline \<in> set (joinWords R) \<or> newline \<in> set sfx" by (simp add: r_def)
      then show False
      proof
        assume "newline \<in> set (joinWords R)"
        from joinWords_chars [OF this] gR newline_is_whitespace
        show False by (auto simp add: goodTokens_def newline_def)
      next
        assume "newline \<in> set sfx"
        then show False using sfx by (auto simp add: newline_def)
      qed
    qed
    have "(dedupeChunkAgainstLiveTranscript live r = r) = (detectedOverlap live r = 0)"
      by (rule dedupe_fixed_iff)
    also have "\<dots> = (overlapWords (tokenise live) R = 0)"
      using trne guards(2,4) nl tok by (simp add: detectedOverlap_def tokenise_def)
    also have "\<dots> = (\<not> furtherOverlap (map normalizeWord (tokenise live)) (map normalizeWord R))"
      by (rule overlapWords_zero_iff [OF goodTokens_no_space [OF gE] goodTokens_no_space [OF gR]])
    finally show ?thesis using res False ne by (simp add: R_def)
  qed
qed

lemma first_application_drops_nothing_iff:
  assumes "\<not> passesThrough live chunk"
  shows "(overlapWords (tokenise live) (tokenise chunk) = 0) =
         (\<not> furtherOverlap (map normalizeWord (tokenise live)) (map normalizeWord (tokenise chunk)))"
proof -
  have "trim chunk \<noteq> []" "trim live \<noteq> []" using assms by (auto simp add: passesThrough_def)
  then have "goodTokens (tokenise chunk)" "goodTokens (tokenise live)"
    unfolding tokenise_def by (simp_all add: tokens_good)
  then show ?thesis
    by (intro overlapWords_zero_iff goodTokens_no_space)
qed

text \<open>
  Claim C1, amended. For every live transcript and every chunk, deduping the result of the
  deduper once more against the same transcript returns that result unchanged exactly when
  one of these holds: a side is blank or holds a newline; the words of the chunk have, in
  normalised form, no match with the words of the transcript; the first application drops
  every word of the chunk; or the words that the first application leaves have no match
  with the words of the transcript. A match is a tail-head match or a floating match as the
  specification defines them (sizes 1 to \<open>min(|E|, |N|, 20)\<close>, and sizes 4 to
  \<open>min(|N|, 16, |E|, 28)\<close> at a start no earlier than \<open>|E| - size - 6\<close>). In particular
  the second application returns the result unchanged whenever no normalised word that
  the first application leaves is a normalised word of the transcript.
\<close>

theorem dedupe_idempotent_iff_no_further_match:
  "((dedupeChunkAgainstLiveTranscript live (dedupeChunkAgainstLiveTranscript live chunk) =
       dedupeChunkAgainstLiveTranscript live chunk) =
    (passesThrough live chunk \<or>
     \<not> furtherOverlap (map normalizeWord (tokenise live)) (map normalizeWord (tokenise chunk)) \<or>
     remainingWords live chunk = [] \<or>
     \<not> furtherOverlap (map normalizeWord (tokenise live))
                       (map normalizeWord (remainingWords live chunk)))) \<and>
   (set (map normalizeWord (tokenise live)) \<inter> set (map normalizeWord (remainingWords live chunk)) = {}
      \<longrightarrow> dedupeChunkAgainstLiveTranscript live (dedupeChunkAgainstLiveTranscript live chunk) =
          dedupeChunkAgainstLiveTranscript live chunk)"
  using dedupe_twice_iff [of live chunk] first_application_drops_nothing_iff [of live chunk]
        furtherOverlap_shares_word [of "map normalizeWord (tokenise live)"
                                       "map normalizeWord (remainingWords live chunk)"]
  by blast


text \<open>
  After \<open>hello world \<close>, the chunk \<open>world today \<close> loses its first word and the word left
  is no word of the transcript: a second application changes nothing. After
  \<open>hello world\<close>, the chunk \<open>world world\<close> loses its first word and the word left matches
  the tail of the transcript: a second application changes the result.
\<close>

theorem dedupe_idempotent_iff_no_further_match_witness:
  "set (map normalizeWord (tokenise ''hello world '')) \<inter>
     set (map normalizeWord (remainingWords ''hello world '' ''world today '')) = {} \<and>
   dedupeChunkAgainstLiveTranscript ''hello world ''
     (dedupeChunkAgainstLiveTranscript ''hello world '' ''world today '') =
   dedupeChunkAgainstLiveTranscript ''hello world '' ''world today '' \<and>
   furtherOverlap (map normalizeWord (tokenise ''hello world''))
     (map normalizeWord (remainingWords ''hello world'' ''world world'')) \<and>
   dedupeChunkAgainstLiveTranscript ''hello world''
     (dedupeChunkAgainstLiveTranscript ''hello world'' ''world world'') \<noteq>
   dedupeChunkAgainstLiveTranscript ''hello world'' ''world world''"
proof -
  have a: "set (map normalizeWord (tokenise ''hello world '')) \<inter>
     set (map normalizeWord (remainingWords ''hello world '' ''world today '')) = {}"
    by code_simp
  have b: "\<not> passesThrough ''hello world'' ''world world''"
          "furtherOverlap (map normalizeWord (tokenise ''hello world''))
             (map normalizeWord (tokenise ''world world''))"
          "remainingWords ''hello world'' ''world world'' \<noteq> []"
          "furtherOverlap (map normalizeWord (tokenise ''hello world''))
             (map normalizeWord (remainingWords ''hello world'' ''world world''))"
    by code_simp+
  from dedupe_idempotent_iff_no_further_match [of "''hello world ''" "''world today ''"] a
  have c: "dedupeChunkAgainstLiveTranscript ''hello world ''
     (dedupeChunkAgainstLiveTranscript ''hello world '' ''world today '') =
   dedupeChunkAgainstLiveTranscript ''hello world '' ''world today ''" by blast
  from dedupe_idempotent_iff_no_further_match [of "''hello world''" "''world world''"] b
  have d: "dedupeChunkAgainstLiveTranscript ''hello world''
     (dedupeChunkAgainstLiveTranscript ''hello world'' ''world world'') \<noteq>
   dedupeChunkAgainstLiveTranscript ''hello world'' ''world world''" by blast
  show ?thesis using a b(4) c d by blast
qed

text \<open>
  The claim as the specification states it, idempotence for every transcript and chunk,
  fails: after \<open>hello world\<close>, the chunk \<open>world world\<close> becomes \<open>world\<close>, and \<open>world\<close>
  becomes the empty text.
\<close>

theorem dedupe_not_idempotent:
  "dedupeChunkAgainstLiveTranscript ''hello world''
     (dedupeChunkAgainstLiveTranscript ''hello world'' ''world world'') \<noteq>
   dedupeChunkAgainstLiveTranscript ''hello world'' ''world world''"
  by code_simp


section \<open>The chunk durations that the recorders accept\<close>

text \<open>
  Claim C9, amended. \<open>startStreaming\<close> fails its range check exactly when the recorder is
  not already active and the chunk duration is outside the range of that recorder: from 40
  to 2000 ms for \<open>FfmpegRecorder\<close>, from 20 to 2000 ms for \<open>RustNativeRecorder\<close>.
\<close>

theorem recorders_chunk_duration_ranges:
  "(FfmpegRecorder_startStreaming chunkDurationMs started r = Inl ChunkDurationOutOfRange) =
     (\<not> processActive r \<and> (chunkDurationMs < 40 \<or> chunkDurationMs > 2000)) \<and>
   (RustNativeRecorder_startStreaming chunkDurationMs binaryExists started r = Inl ChunkDurationOutOfRange) =
     (\<not> processActive r \<and> (chunkDurationMs < 20 \<or> chunkDurationMs > 2000))"
  by (auto simp add: FfmpegRecorder_startStreaming_def RustNativeRecorder_startStreaming_def Let_def
           split: completion.splits)

text \<open>
  The claim as the specification states it, one range from 20 to 2000 ms, fails for
  \<open>FfmpegRecorder\<close> at 30 ms.
\<close>

theorem ffmpeg_recorder_rejects_30_ms:
  "(20::real) \<le> 30 \<and> (30::real) \<le> 2000 \<and>
   FfmpegRecorder_startStreaming 30 Completed newRecorder = Inl ChunkDurationOutOfRange"
  by (simp add: FfmpegRecorder_startStreaming_def newRecorder_def)

text \<open>At 30 ms the two recorders differ; at 40 ms \<open>FfmpegRecorder\<close> accepts.\<close>

theorem recorders_chunk_duration_ranges_witness:
  "FfmpegRecorder_startStreaming 30 Completed newRecorder = Inl ChunkDurationOutOfRange \<and>
   RustNativeRecorder_startStreaming 30 True Completed newRecorder \<noteq> Inl ChunkDurationOutOfRange \<and>
   FfmpegRecorder_startStreaming 40 Completed newRecorder \<noteq> Inl ChunkDurationOutOfRange"
  using recorders_chunk_duration_ranges [of 30 Completed newRecorder True]
        recorders_chunk_duration_ranges [of 40 Completed newRecorder True]
  by (simp add: newRecorder_def)


section \<open>The tail of the stream\<close>

lemma dedupe_hw: "dedupeChunkAgainstLiveTranscript ''hello world '' ''world today '' = ''today ''"
  by code_simp

lemma transform_wt: "transform ''world today'' = \<lparr>result_text = ''world today'', appliedCommands = 0\<rparr>"
  by code_simp

lemma trim_wt: "trim ''world today'' = ''world today''"
  by code_simp

lemma norm_wt: "normalizeLiveChunkOutput ''world today'' = ''world today ''"
  by code_simp

text \<open>
  Claim C2 at the input where the code departs from it. The live transcript is
  \<open>hello world \<close> and the worker answers \<open>world today\<close>. As the tail of the stream,
  \<open>processStreamFlush\<close> injects \<open>world today \<close>: it rewrites and normalises the text and
  does not call the deduper. As the result of a slice, \<open>processAudioSlice\<close> injects
  \<open>today \<close>.
\<close>

theorem flush_tail_is_not_deduped:
  "emitted (snd (processStreamFlush mlx_options world_today_flush hello_world_app)) =
     [Inject ''world today ''] \<and>
   emitted (snd (processAudioSlice mlx_options world_today_responses example_slice
                   (hello_world_app\<lparr>speechHangoverUntilMs := 1000\<rparr>))) =
     [Inject ''today '']"
  apply (simp add: processStreamFlush_def processAudioSlice_def mlx_options_def DEFAULT_LATENCY_OPTIONS_def
      world_today_flush_def world_today_responses_def hello_world_app_def newDingoFlowApp_def
      example_clock_def spokenCommands_def trim_wt transform_wt norm_wt dedupe_hw Let_def
      updateAdaptiveWindow_fields estimateDbfs_example_slice)
  done


section \<open>Injected chunks end in whitespace\<close>

lemma endsWithWhitespace_iff: "endsWithWhitespace t = (t \<noteq> [] \<and> isWhiteSpace (last t))"
  by (cases t rule: rev_cases) (simp_all add: endsWithWhitespace_def)

lemma endsWithWhitespace_append_space: "endsWithWhitespace (t @ '' '')"
  by (simp add: endsWithWhitespace_def isWhiteSpace_def)

lemma normalizeLiveChunkOutput_ends:
  "normalizeLiveChunkOutput t = [] \<or> endsWithWhitespace (normalizeLiveChunkOutput t)"
  by (simp add: normalizeLiveChunkOutput_def Let_def endsWithWhitespace_append_space)

lemma dedupe_ends:
  assumes "endsWithWhitespace c"
  shows "dedupeChunkAgainstLiveTranscript live c = [] \<or>
         endsWithWhitespace (dedupeChunkAgainstLiveTranscript live c)"
  using assms
  by (simp add: dedupeChunkAgainstLiveTranscript_def Let_def endsWithWhitespace_append_space)

lemma processAudioSlice_emitted:
  "emitted (snd (processAudioSlice options r audioSlice s)) = emitted s \<or>
   (\<exists>t. emitted (snd (processAudioSlice options r audioSlice s)) = emitted s @ [Inject t] \<and>
        endsWithWhitespace t)"
proof -
  have "endsWithWhitespace
          (dedupeChunkAgainstLiveTranscript live (normalizeLiveChunkOutput x))"
    if "normalizeLiveChunkOutput x \<noteq> []"
       "dedupeChunkAgainstLiveTranscript live (normalizeLiveChunkOutput x) \<noteq> []" for live x
    using that normalizeLiveChunkOutput_ends [of x] dedupe_ends [of "normalizeLiveChunkOutput x" live]
    by blast
  then show ?thesis
    by (auto simp add: processAudioSlice_def Let_def updateAdaptiveWindow_fields fold_onChunk_fields
             split: option.splits completion.splits)
qed

lemma processStreamFlush_emitted:
  "emitted (snd (processStreamFlush options fr s)) = emitted s \<or>
   (\<exists>t. emitted (snd (processStreamFlush options fr s)) = emitted s @ [Inject t] \<and>
        endsWithWhitespace t)"
  using normalizeLiveChunkOutput_ends
  by (auto simp add: processStreamFlush_def Let_def split: option.splits completion.splits)

text \<open>
  Claim C10. Every text that live streaming passes to the injector's \<open>inject\<close> is not
  empty and ends with a whitespace character: one call of \<open>processAudioSlice\<close> (a result
  of a slice) and one call of \<open>processStreamFlush\<close> (the tail of the stream) each either
  add no effect or add one call of \<open>inject\<close> with such a text.
  \<open>normalizeLiveChunkOutput\<close> appends a space unless its result ends in whitespace, and
  the deduper returns the chunk, the empty text, or words followed by a space when the chunk
  ended in whitespace.
\<close>

theorem live_chunks_end_in_whitespace:
  "(emitted (snd (processAudioSlice options r audioSlice s)) = emitted s \<or>
    (\<exists>t. emitted (snd (processAudioSlice options r audioSlice s)) = emitted s @ [Inject t] \<and>
         t \<noteq> [] \<and> isWhiteSpace (last t))) \<and>
   (emitted (snd (processStreamFlush options fr s)) = emitted s \<or>
    (\<exists>t. emitted (snd (processStreamFlush options fr s)) = emitted s @ [Inject t] \<and>
         t \<noteq> [] \<and> isWhiteSpace (last t)))"
  using processAudioSlice_emitted [of options r audioSlice s]
        processStreamFlush_emitted [of options fr s]
  by (simp add: endsWithWhitespace_iff)


section \<open>A session of silence\<close>

lemma pending_sum_nonneg: "offsets_ok q \<Longrightarrow> 0 \<le> pending_sum q"
  by (induction q) (simp_all add: offsets_ok_def pending_sum_def)

lemma read_exact:
  assumes "queue_inv q" and "0 < n" and "n \<le> pendingAudioBytes q"
      and "readPendingAudioSlice now n q = (r, q')"
  shows "pendingAudioBytes q' = pendingAudioBytes q - n"
    and "\<exists>sl. r = Some sl \<and> int (length (slice_data sl)) = n"
proof -
  obtain out old qq p where c: "copyFromQueue n 0 [] now (pendingAudioQueue q) (pendingAudioBytes q) = (out, old, qq, p)"
    by (cases "copyFromQueue n 0 [] now (pendingAudioQueue q) (pendingAudioBytes q)") auto
  from copyFromQueue_inv [OF _ c] assms(1,2,3)
  have "p = pendingAudioBytes q - int (length out)" "int (length out) = n"
    by (auto simp: queue_inv_def)
  moreover have "q' = q\<lparr>pendingAudioQueue := qq, pendingAudioBytes := p\<rparr>"
                "r = Some \<lparr>slice_data = out, oldestEnqueuedAtMs = old\<rparr>"
    using assms(2,3,4) c by (auto simp add: readPendingAudioSlice_def)
  ultimately show "pendingAudioBytes q' = pendingAudioBytes q - n"
    and "\<exists>sl. r = Some sl \<and> int (length (slice_data sl)) = n" by simp_all
qed

lemma onChunk_silent:
  assumes "silent_inv E st s" and "list_all (\<lambda>b. b = 0) chunk"
  shows "silent_inv E st (onChunk now chunk s)"
    and "recordingActive (onChunk now chunk s) = recordingActive s"
  using assms enqueue_inv [of "audio s" now chunk]
  by (auto simp add: silent_inv_def onChunk_def)

lemma takeNextAudioSlice_silent:
  assumes "silent_inv E st s" and "takeNextAudioSlice options now ff s = (r, s')"
  shows "silent_inv E st s'"
    and "recordingActive s' = recordingActive s"
    and "case r of None \<Rightarrow> True | Some sl \<Rightarrow> list_all (\<lambda>b. b = 0) (slice_data sl)"
    and "ff \<Longrightarrow> pendingAudioBytes (audio s) \<noteq> 0 \<Longrightarrow> pendingAudioBytes (audio s') = 0"
proof -
  define n where "n = (if ff then pendingAudioBytes (audio s)
      else min (pendingAudioBytes (audio s))
        (msToBytes (clamp
          (let targetMs = (if adaptiveAsrWindow options then dynamicNormalAsrWindowMs s
                                  else normalAsrWindowMs options)
           in if bytesToMs (pendingAudioBytes (audio s)) \<ge> backlogAsrWindowMs options * 2
                                  then maxAsrWindowMs options
                                  else if bytesToMs (pendingAudioBytes (audio s)) \<ge> backlogAsrWindowMs options
                                  then max targetMs (backlogAsrWindowMs options)
                                  else targetMs) (minAsrWindowMs options) (maxAsrWindowMs options))))"
  have inv: "queue_inv (audio s)" using assms(1) by (simp add: silent_inv_def)
  have cases: "(r = None \<and> s' = s \<and> (pendingAudioBytes (audio s) = 0 \<or> \<not> ff \<or> n \<le> 0)) \<or>
               (0 < n \<and> (n = pendingAudioBytes (audio s) \<or> \<not> ff) \<and>
                  (\<exists>q. readPendingAudioSlice now n (audio s) = (r, q) \<and> s' = s\<lparr>audio := q\<rparr>))"
    using assms(2)
    by (auto simp add: takeNextAudioSlice_def Let_def n_def split: if_splits prod.splits)
  then show "silent_inv E st s'"
  proof
    assume "r = None \<and> s' = s \<and> (pendingAudioBytes (audio s) = 0 \<or> \<not> ff \<or> n \<le> 0)"
    then show ?thesis using assms(1) by simp
  next
    assume "0 < n \<and> (n = pendingAudioBytes (audio s) \<or> \<not> ff) \<and>
            (\<exists>q. readPendingAudioSlice now n (audio s) = (r, q) \<and> s' = s\<lparr>audio := q\<rparr>)"
    then obtain q where q: "readPendingAudioSlice now n (audio s) = (r, q)" "s' = s\<lparr>audio := q\<rparr>" by blast
    from read_inv [OF inv q(1)] assms(1) q(2)
    show ?thesis by (auto simp add: silent_inv_def)
  qed
  from cases show "recordingActive s' = recordingActive s" by auto
  from cases show "case r of None \<Rightarrow> True | Some sl \<Rightarrow> list_all (\<lambda>b. b = 0) (slice_data sl)"
  proof
    assume "r = None \<and> s' = s \<and> (pendingAudioBytes (audio s) = 0 \<or> \<not> ff \<or> n \<le> 0)"
    then show ?thesis by simp
  next
    assume "0 < n \<and> (n = pendingAudioBytes (audio s) \<or> \<not> ff) \<and>
            (\<exists>q. readPendingAudioSlice now n (audio s) = (r, q) \<and> s' = s\<lparr>audio := q\<rparr>)"
    then obtain q where q: "readPendingAudioSlice now n (audio s) = (r, q)" "s' = s\<lparr>audio := q\<rparr>" by blast
    from read_inv(2) [OF inv q(1)] assms(1)
    show ?thesis by (cases r) (auto simp add: silent_inv_def)
  qed
  show "pendingAudioBytes (audio s') = 0" if ff: "ff" and ne: "pendingAudioBytes (audio s) \<noteq> 0"
  proof -
    have nn: "0 < pendingAudioBytes (audio s)"
      using inv ne pending_sum_nonneg [of "pendingAudioQueue (audio s)"] by (simp add: queue_inv_def)
    have n: "n = pendingAudioBytes (audio s)" using ff by (simp add: n_def)
    from cases nn n ne obtain q where q: "readPendingAudioSlice now n (audio s) = (r, q)" "s' = s\<lparr>audio := q\<rparr>"
      using ff by auto
    from read_exact(1) [OF inv _ _ q(1)] nn n q(2) show ?thesis by simp
  qed
qed


lemma processAudioSlice_silent:
  assumes "speechHangoverUntilMs s = 0" and "list_all (\<lambda>b. b = 0) (slice_data sl)"
      and "0 < nowMs (clock r)" and "- 120 < silenceGateDbfs options"
  shows "processAudioSlice options r sl s = (Completed, s)"
  using assms estimateDbfs_silence [OF assms(2)]
  by (simp add: processAudioSlice_def Let_def)

lemma loopIteration_silent:
  assumes "silent_inv E st s" and "0 < nowMs (clock (sliceResponses r))"
      and "- 120 < silenceGateDbfs options" and "loopIteration options r s = (c, s')"
  shows "silent_inv E st s'"
    and "recordingActive s' = recordingActive s"
    and "c = None \<or> c = Some Completed"
    and "\<not> recordingActive s \<Longrightarrow> pendingAudioBytes (audio s) \<noteq> 0 \<Longrightarrow> pendingAudioBytes (audio s') = 0"
proof -
  obtain t s1 where t: "takeNextAudioSlice options (takeNow r) (\<not> recordingActive s) s = (t, s1)"
    by (cases "takeNextAudioSlice options (takeNow r) (\<not> recordingActive s) s") auto
  note k = takeNextAudioSlice_silent [OF assms(1) t]
  have res: "(c = None \<and> s' = s1) \<or> (c = Some Completed \<and> s' = s1\<lparr>asrRequestCount := asrRequestCount s1 + 1\<rparr>)"
  proof (cases t)
    case None
    then show ?thesis using assms(4) t by (simp add: loopIteration_def)
  next
    case (Some sl)
    have z: "list_all (\<lambda>b. b = 0) (slice_data sl)" using k(3) Some by simp
    have h: "speechHangoverUntilMs (s1\<lparr>asrRequestCount := asrRequestCount s1 + 1\<rparr>) = 0"
      using k(1) by (simp add: silent_inv_def)
    from processAudioSlice_silent [OF h z assms(2,3)] assms(4) t Some
    show ?thesis by (simp add: loopIteration_def)
  qed
  from res k(1) show "silent_inv E st s'" by (auto simp add: silent_inv_def)
  from res k(2) show "recordingActive s' = recordingActive s" by auto
  from res show "c = None \<or> c = Some Completed" by auto
  show "pendingAudioBytes (audio s') = 0"
    if "\<not> recordingActive s" "pendingAudioBytes (audio s) \<noteq> 0"
    using res k(4) that by auto
qed

lemma run_events_silent:
  "silent_inv E st s \<Longrightarrow> silent_events es \<Longrightarrow>
   clocks_positive (concat (map loop_responses_of es)) \<Longrightarrow> - 120 < silenceGateDbfs options \<Longrightarrow>
   silent_inv E st (run_events options es s) \<and>
   recordingActive (run_events options es s) = recordingActive s"
proof (induction options es s rule: run_events.induct)
  case (1 options s)
  then show ?case by simp
next
  case (2 options now chunk es s)
  have z: "list_all (\<lambda>b. b = 0) chunk" using "2.prems"(2) by (simp add: silent_events_def)
  from "2.IH" [OF onChunk_silent(1) [OF "2.prems"(1) z]] "2.prems" onChunk_silent(2) [OF "2.prems"(1) z]
  show ?case by (simp add: silent_events_def)
next
  case (3 options r es s)
  obtain c s1 where l: "loopIteration options r s = (c, s1)"
    by (cases "loopIteration options r s") auto
  have pos: "0 < nowMs (clock (sliceResponses r))" using "3.prems"(3) by (simp add: clocks_positive_def)
  note k = loopIteration_silent [OF "3.prems"(1) pos "3.prems"(4) l]
  from "3.IH" k(1,2) "3.prems" l
  show ?case by (simp add: silent_events_def clocks_positive_def)
qed

lemma waitForAsrDrain_silent:
  assumes "silent_inv E st s" and "\<not> recordingActive s" and "rs \<noteq> []"
      and "clocks_positive rs" and "- 120 < silenceGateDbfs options"
  shows "\<exists>s'. waitForAsrDrain options rs s = Some (Completed, s') \<and> silent_inv E st s'"
proof (cases "pendingAudioBytes (audio s) = 0")
  case True
  then show ?thesis using assms(1) by (simp add: waitForAsrDrain.simps [of options rs s])
next
  case False
  obtain r rest where rs: "rs = r # rest" using assms(3) by (cases rs) auto
  obtain c s1 where l: "loopIteration options r s = (c, s1)"
    by (cases "loopIteration options r s") auto
  have pos: "0 < nowMs (clock (sliceResponses r))" using assms(4) rs by (simp add: clocks_positive_def)
  note k = loopIteration_silent [OF assms(1) pos assms(5) l]
  have z: "pendingAudioBytes (audio s1) = 0" using k(4) assms(2) False by simp
  have "waitForAsrDrain options rs s = waitForAsrDrain options rest s1"
    using False rs l k(3) by (auto simp add: waitForAsrDrain.simps [of options "r # rest" s])
  also have "\<dots> = Some (Completed, s1)" using z by (simp add: waitForAsrDrain.simps [of options rest s1])
  finally show ?thesis using k(1) by simp
qed


lemma joinedRawTranscript_Nil: "joinedRawTranscript [] = []"
  by (simp add: joinedRawTranscript_def replace_def trim_def trimEnd_def trimStart_def)

lemma processStreamFlush_no_text:
  assumes "case flushStream fr of Some (Some t) \<Rightarrow> trim t = [] | _ \<Rightarrow> True"
  shows "processStreamFlush options fr s = (Completed, s)"
  using assms by (simp add: processStreamFlush_def split: option.splits)

lemma finalPass_no_text:
  assumes "case finalPassText r of Some t \<Rightarrow> trim t = [] | None \<Rightarrow> True"
  shows "finalPass options r [] s = (Completed, [], s) \<or>
         (parakeetFinalPass options \<and>
          finalPass options r [] s =
            (Completed, [], setState \<lparr>stage = Transcribing, detail = Some ''Final native Parakeet pass''\<rparr> s))"
  using assms by (auto simp add: finalPass_def Let_def split: option.splits)

lemma silent_session_trace:
  assumes idle: "stage (state a) = Idle \<or> stage (state a) = Error"
      and gate: "- 120 < silenceGateDbfs options"
      and silent: "silent_events es" "silent_events (duringStop r)"
      and clocks: "clocks_positive (concat (map loop_responses_of es))"
                  "clocks_positive (concat (map loop_responses_of (duringStop r)))"
                  "clocks_positive (drainIterations r)"
      and fuel: "drainIterations r \<noteq> []"
      and stopped: "recorderStopped r = Completed"
      and flush: "case flushStream (flushResponses r) of Some (Some t) \<Rightarrow> trim t = [] | _ \<Rightarrow> True"
      and final: "case finalPassText r of Some t \<Rightarrow> trim t = [] | None \<Rightarrow> True"
  shows "\<exists>s' X. handlePushToTalkReleased options r
                  (run_events options es (handlePushToTalkPressed options Completed a)) = Some s' \<and>
           state s' = \<lparr>stage = Idle, detail = Some ''No speech detected''\<rparr> \<and>
           emitted s' = emitted a @
              [StateChanged \<lparr>stage = Recording, detail = Some ''Live dictation (adaptive streaming)''\<rparr>,
               StateChanged \<lparr>stage = Transcribing, detail = Some ''Draining audio queue''\<rparr>] @ X @
              [StateChanged \<lparr>stage = Idle, detail = Some ''No speech detected''\<rparr>] \<and>
           (X = [] \<or> (parakeetFinalPass options \<and>
              X = [StateChanged \<lparr>stage = Transcribing, detail = Some ''Final native Parakeet pass''\<rparr>]))"
proof -
  let ?rec = "\<lparr>stage = Recording, detail = Some ''Live dictation (adaptive streaming)''\<rparr>"
  let ?drain = "\<lparr>stage = Transcribing, detail = Some ''Draining audio queue''\<rparr>"
  let ?fin = "\<lparr>stage = Transcribing, detail = Some ''Final native Parakeet pass''\<rparr>"
  let ?idle = "\<lparr>stage = Idle, detail = Some ''No speech detected''\<rparr>"
  let ?E1 = "emitted a @ [StateChanged ?rec]"
  let ?E2 = "?E1 @ [StateChanged ?drain]"
  define s0 where "s0 = handlePushToTalkPressed options Completed a"
  have i0: "silent_inv ?E1 ?rec s0"
    using idle
    using queue_inv_empty
    by (auto simp add: s0_def handlePushToTalkPressed_def startRecording_def setState_def
          silent_inv_def emptyQueue_def queued_bytes_def)
  define s1 where "s1 = run_events options es s0"
  have i1: "silent_inv ?E1 ?rec s1"
    using run_events_silent [OF i0 silent(1) clocks(1) gate] by (simp add: s1_def)
  have st1: "stage (state s1) = Recording" using i1 by (simp add: silent_inv_def)
  have i1': "silent_inv ?E1 ?rec (s1\<lparr>recordingActive := False\<rparr>)"
    using i1 by (simp add: silent_inv_def)
  define s2 where "s2 = run_events options (duringStop r) (s1\<lparr>recordingActive := False\<rparr>)"
  have i2: "silent_inv ?E1 ?rec s2" and r2: "\<not> recordingActive s2"
    using run_events_silent [OF i1' silent(2) clocks(2) gate] by (simp_all add: s2_def)
  define s3 where "s3 = setState ?drain (s2\<lparr>acceptingAudio := False\<rparr>)"
  have i3: "silent_inv ?E2 ?drain s3" and r3: "\<not> recordingActive s3"
    using i2 r2 by (simp_all add: s3_def setState_def silent_inv_def)
  from waitForAsrDrain_silent [OF i3 r3 fuel clocks(3) gate]
  obtain s4 where d: "waitForAsrDrain options (drainIterations r) s3 = Some (Completed, s4)"
    and i4: "silent_inv ?E2 ?drain s4" by blast
  have fl: "processStreamFlush options (flushResponses r) s4 = (Completed, s4)"
    by (rule processStreamFlush_no_text [OF flush])
  have raw: "joinedRawTranscript (rawTranscriptParts s4) = []"
    using i4 by (simp add: silent_inv_def joinedRawTranscript_Nil)
  from finalPass_no_text [OF final, of options s4]
  obtain X where fp: "finalPass options r [] s4 = (Completed, [], s4\<lparr>state := (if X = [] then state s4 else ?fin), emitted := emitted s4 @ X\<rparr>)"
    and X: "X = [] \<or> (parakeetFinalPass options \<and> X = [StateChanged ?fin])"
  proof
    assume a1: "finalPass options r [] s4 = (Completed, [], s4)"
    show ?thesis by (rule that [of "[]"]) (simp_all add: a1)
  next
    assume a2: "parakeetFinalPass options \<and> finalPass options r [] s4 = (Completed, [], setState ?fin s4)"
    show ?thesis by (rule that [of "[StateChanged ?fin]"]) (simp_all add: a2 setState_def)
  qed
  define s5 where "s5 = s4\<lparr>state := (if X = [] then state s4 else ?fin), emitted := emitted s4 @ X\<rparr>"
  have body: "stopAndProcessBody options r s1 = Some (Completed, setState ?idle s5)"
    using stopped d fl raw fp
    by (simp add: stopAndProcessBody_def Let_def s2_def [symmetric] s3_def [symmetric]
          s5_def [symmetric] completeDictation_def)
  have e5: "emitted s5 = ?E2 @ X" using i4 by (simp add: s5_def silent_inv_def)
  show ?thesis
    using st1 body e5 X
    by (simp add: handlePushToTalkReleased_def stopAndProcess_def s1_def [symmetric] s0_def [symmetric]
          setState_def)
qed


text \<open>
  Claim C3, amended. A session hears only silence: every chunk that arrives is all zero,
  the gate is above -120 dBFS (as with \<open>silenceGateDbfs = -52\<close>), the clock is past zero,
  and the flush and the final pass, where they run, return no text. When the key is
  released, for every schedule of chunks and loop iterations, the release returns, the
  session is back in \<open>idle\<close> with the detail \<open>No speech detected\<close>, and all it did to the
  outside since the key was pressed is to change state: nothing was passed to the
  injector, and no \<open>dictationCompleted\<close> event was emitted.
\<close>

theorem silent_session_emits_only_state_changes:
  assumes "stage (state a) = Idle \<or> stage (state a) = Error"
      and "- 120 < silenceGateDbfs options"
      and "silent_events es" and "silent_events (duringStop r)"
      and "clocks_positive (concat (map loop_responses_of es))"
      and "clocks_positive (concat (map loop_responses_of (duringStop r)))"
      and "clocks_positive (drainIterations r)"
      and "drainIterations r \<noteq> []"
      and "recorderStopped r = Completed"
      and "case flushStream (flushResponses r) of Some (Some t) \<Rightarrow> trim t = [] | _ \<Rightarrow> True"
      and "case finalPassText r of Some t \<Rightarrow> trim t = [] | None \<Rightarrow> True"
  shows "\<exists>s'. handlePushToTalkReleased options r
                (run_events options es (handlePushToTalkPressed options Completed a)) = Some s' \<and>
              state s' = \<lparr>stage = Idle, detail = Some ''No speech detected''\<rparr> \<and>
              list_all is_state_change (drop (length (emitted a)) (emitted s'))"
proof -
  from silent_session_trace [OF assms]
  obtain s' X where
    "handlePushToTalkReleased options r
       (run_events options es (handlePushToTalkPressed options Completed a)) = Some s'"
    "state s' = \<lparr>stage = Idle, detail = Some ''No speech detected''\<rparr>"
    "emitted s' = emitted a @
       [StateChanged \<lparr>stage = Recording, detail = Some ''Live dictation (adaptive streaming)''\<rparr>,
        StateChanged \<lparr>stage = Transcribing, detail = Some ''Draining audio queue''\<rparr>] @ X @
       [StateChanged \<lparr>stage = Idle, detail = Some ''No speech detected''\<rparr>]"
    "X = [] \<or> (parakeetFinalPass options \<and>
       X = [StateChanged \<lparr>stage = Transcribing, detail = Some ''Final native Parakeet pass''\<rparr>])"
    by blast
  then show ?thesis by auto
qed

text \<open>
  The trivial flush of the specification, with the default options (gate at -52 dBFS).
\<close>

lemma trivial_flush_hyps:
  "stage (state (newDingoFlowApp DEFAULT_LATENCY_OPTIONS)) = Idle \<or>
   stage (state (newDingoFlowApp DEFAULT_LATENCY_OPTIONS)) = Error"
  "- 120 < silenceGateDbfs DEFAULT_LATENCY_OPTIONS"
  "silent_events trivial_flush_events"
  "silent_events (duringStop silent_stop)"
  "clocks_positive (concat (map loop_responses_of trivial_flush_events))"
  "clocks_positive (concat (map loop_responses_of (duringStop silent_stop)))"
  "clocks_positive (drainIterations silent_stop)"
  "drainIterations silent_stop \<noteq> []"
  "recorderStopped silent_stop = Completed"
  "case flushStream (flushResponses silent_stop) of Some (Some t) \<Rightarrow> trim t = [] | _ \<Rightarrow> True"
  "case finalPassText silent_stop of Some t \<Rightarrow> trim t = [] | None \<Rightarrow> True"
  by (simp_all add: newDingoFlowApp_def DEFAULT_LATENCY_OPTIONS_def silent_events_def
        silence_100ms_def silent_stop_def trivial_flush_events_def clocks_positive_def drain_response_def example_clock_def
        trim_def trimEnd_def trimStart_def list_all_iff)

theorem silent_session_emits_only_state_changes_witness:
  "(stage (state (newDingoFlowApp DEFAULT_LATENCY_OPTIONS)) = Idle \<or>
    stage (state (newDingoFlowApp DEFAULT_LATENCY_OPTIONS)) = Error) \<and>
   - 120 < silenceGateDbfs DEFAULT_LATENCY_OPTIONS \<and>
   silent_events trivial_flush_events \<and>
   silent_events (duringStop silent_stop) \<and>
   clocks_positive (concat (map loop_responses_of trivial_flush_events)) \<and>
   clocks_positive (concat (map loop_responses_of (duringStop silent_stop))) \<and>
   clocks_positive (drainIterations silent_stop) \<and>
   drainIterations silent_stop \<noteq> [] \<and>
   recorderStopped silent_stop = Completed \<and>
   (case flushStream (flushResponses silent_stop) of Some (Some t) \<Rightarrow> trim t = [] | _ \<Rightarrow> True) \<and>
   (case finalPassText silent_stop of Some t \<Rightarrow> trim t = [] | None \<Rightarrow> True) \<and>
   (\<exists>s'. handlePushToTalkReleased DEFAULT_LATENCY_OPTIONS silent_stop
            (run_events DEFAULT_LATENCY_OPTIONS trivial_flush_events
               (handlePushToTalkPressed DEFAULT_LATENCY_OPTIONS Completed
                  (newDingoFlowApp DEFAULT_LATENCY_OPTIONS))) = Some s' \<and>
          state s' = \<lparr>stage = Idle, detail = Some ''No speech detected''\<rparr> \<and>
          list_all is_state_change (emitted s'))"
proof -
  from silent_session_emits_only_state_changes [OF trivial_flush_hyps]
  have "\<exists>s'. handlePushToTalkReleased DEFAULT_LATENCY_OPTIONS silent_stop
            (run_events DEFAULT_LATENCY_OPTIONS trivial_flush_events
               (handlePushToTalkPressed DEFAULT_LATENCY_OPTIONS Completed
                  (newDingoFlowApp DEFAULT_LATENCY_OPTIONS))) = Some s' \<and>
          state s' = \<lparr>stage = Idle, detail = Some ''No speech detected''\<rparr> \<and>
          list_all is_state_change (emitted s')"
    by (simp add: newDingoFlowApp_def)
  then show ?thesis using trivial_flush_hyps by blast
qed

text \<open>
  The claim as the specification states it fails on the trivial flush: the effects of the
  whole session are three changes of state, and no \<open>dictationCompleted\<close> event is among
  them.
\<close>

theorem trivial_flush_emits_no_dictation_completed:
  "map_option emitted
     (handlePushToTalkReleased DEFAULT_LATENCY_OPTIONS silent_stop
        (run_events DEFAULT_LATENCY_OPTIONS trivial_flush_events
           (handlePushToTalkPressed DEFAULT_LATENCY_OPTIONS Completed
              (newDingoFlowApp DEFAULT_LATENCY_OPTIONS)))) =
   Some [StateChanged \<lparr>stage = Recording, detail = Some ''Live dictation (adaptive streaming)''\<rparr>,
         StateChanged \<lparr>stage = Transcribing, detail = Some ''Draining audio queue''\<rparr>,
         StateChanged \<lparr>stage = Idle, detail = Some ''No speech detected''\<rparr>]"
proof -
  have nf: "\<not> parakeetFinalPass DEFAULT_LATENCY_OPTIONS"
    by (simp add: DEFAULT_LATENCY_OPTIONS_def)
  from silent_session_trace [OF trivial_flush_hyps] nf
  show ?thesis by (auto simp add: newDingoFlowApp_def)
qed


end
